theory Spec2Isabelle
  imports Complex_Main "HOL-Library.Word" "HOL-Library.Log_Nat" "HOL-Library.Char_ord"
    "HOL-Library.List_Lexorder"
begin

section \<open>Go numbers as the package totp uses them\<close>

text \<open>
  The package is modelled for a 64-bit target: \<^verbatim>\<open>uint\<close> and \<^verbatim>\<open>int\<close> are 64 bits wide,
  like \<^verbatim>\<open>uint64\<close> and \<^verbatim>\<open>int64\<close>. All four are \<^typ>\<open>64 word\<close>: addition and subtraction
  wrap, a conversion between two of these types keeps the bits, and only comparisons and
  conversions to \<^verbatim>\<open>float64\<close> read a word as signed (\<^const>\<open>sint\<close>) or unsigned
  (\<^const>\<open>uint\<close>).
\<close>

type_synonym uint64 = "64 word"
type_synonym int64 = "64 word"
type_synonym byte = "8 word"

text \<open>
  A \<^verbatim>\<open>float64\<close> is modelled by the rational number it denotes. Every value that occurs in
  this package is zero or has a magnitude between \<open>2\<^sup>-\<^sup>6\<^sup>4\<close> and \<open>2\<^sup>6\<^sup>4\<close> (a quotient of two
  integers of at most 64 bits, the divisor not zero), so it is a normal number: there is no
  overflow, no subnormal, no infinity and no NaN to model. What is left of IEEE 754 is the
  rounding of an exact result to a 53-bit significand, to nearest and ties to even.
\<close>

type_synonym float64 = rat

text \<open>\<open>ilog2 x\<close> is \<open>\<lfloor>log\<^sub>2 \<bar>x\<bar>\<rfloor>\<close> for \<open>x \<noteq> 0\<close>.\<close>

definition ilog2 :: "rat \<Rightarrow> int" where
  "ilog2 x = (if 1 \<le> \<bar>x\<bar> then bitlen \<lfloor>\<bar>x\<bar>\<rfloor> - 1 else - bitlen (\<lceil>1 / \<bar>x\<bar>\<rceil> - 1))"

definition round_half_even :: "rat \<Rightarrow> int" where
  "round_half_even y =
     (let f = \<lfloor>y\<rfloor>; d = y - of_int f
      in if d < 1 / 2 then f else if 1 / 2 < d then f + 1 else if even f then f else f + 1)"

text \<open>
  The double nearest to \<open>x\<close>: with \<open>e = \<lfloor>log\<^sub>2 \<bar>x\<bar>\<rfloor> - 52\<close> the doubles around \<open>x\<close> are the
  multiples of \<open>2\<^sup>e\<close>.
\<close>

definition round_f64 :: "rat \<Rightarrow> float64" where
  "round_f64 x =
     (if x = 0 then 0
      else let e = ilog2 x - 52 in of_int (round_half_even (x / power_int 2 e)) * power_int 2 e)"

text \<open>\<^verbatim>\<open>float64(x)\<close> for an \<^verbatim>\<open>int64\<close> and for a \<^verbatim>\<open>uint\<close>, and the quotient of two doubles.\<close>

definition float64_of_int64 :: "int64 \<Rightarrow> float64" where
  "float64_of_int64 x = round_f64 (of_int (sint x))"

definition float64_of_uint :: "64 word \<Rightarrow> float64" where
  "float64_of_uint x = round_f64 (of_int (uint x))"

definition float64_div :: "float64 \<Rightarrow> float64 \<Rightarrow> float64" where
  "float64_div x y = round_f64 (x / y)"

text \<open>\<^verbatim>\<open>math.Floor\<close>: the floor of a double is a double.\<close>

definition math_Floor :: "float64 \<Rightarrow> float64" where
  "math_Floor x = of_int \<lfloor>x\<rfloor>"

text \<open>
  A conversion of a \<^verbatim>\<open>float64\<close> to an integer type discards the fraction. When the result
  type cannot represent the truncated value, the language leaves the result to the
  implementation: the model takes what the implementation does there as a parameter.
\<close>

definition trunc_toward_zero :: "float64 \<Rightarrow> int" where
  "trunc_toward_zero x = (if 0 \<le> x then \<lfloor>x\<rfloor> else \<lceil>x\<rceil>)"

record platform =
  int64_out_of_range :: "float64 \<Rightarrow> int64"
  uint64_out_of_range :: "float64 \<Rightarrow> uint64"

definition int64_of_float64 :: "platform \<Rightarrow> float64 \<Rightarrow> int64" where
  "int64_of_float64 pf x =
     (if - (2 ^ 63) \<le> trunc_toward_zero x \<and> trunc_toward_zero x < 2 ^ 63 then word_of_int (trunc_toward_zero x)
      else int64_out_of_range pf x)"

definition uint64_of_float64 :: "platform \<Rightarrow> float64 \<Rightarrow> uint64" where
  "uint64_of_float64 pf x =
     (if 0 \<le> trunc_toward_zero x \<and> trunc_toward_zero x < 2 ^ 64 then word_of_int (trunc_toward_zero x)
      else uint64_out_of_range pf x)"

text \<open>
  One conforming implementation: an out-of-range value is clamped to the nearest value of the
  result type (the behaviour of a saturating convert instruction).
\<close>

definition saturating :: platform where
  "saturating =
     \<lparr>int64_out_of_range = (\<lambda>x. if x < 0 then word_of_int (- (2 ^ 63)) else word_of_int (2 ^ 63 - 1)),
      uint64_out_of_range = (\<lambda>x. if x < 0 then 0 else word_of_int (2 ^ 64 - 1))\<rparr>"

section \<open>Types of the packages otp and hotp\<close>

text \<open>
  Modelled from the spec: the declarations of \<^verbatim>\<open>otp.Algorithm\<close> and \<^verbatim>\<open>otp.Digits\<close> are not
  in the source file. The spec enumerates the algorithms SHA1, SHA256 and SHA512 and makes
  SHA1 the algorithm of an option record nobody has set; the digit count is a number (the
  source compares it with 0) whose named values are 6 and 8.
\<close>

datatype Algorithm = AlgorithmSHA1 | AlgorithmSHA256 | AlgorithmSHA512

type_synonym Digits = int

definition DigitsSix :: Digits where
  "DigitsSix = 6"

definition DigitsEight :: Digits where
  "DigitsEight = 8"

text \<open>
  Errors are values. The two sentinel errors of package otp that \<^verbatim>\<open>Generate\<close> returns are
  named; an error raised by a collaborator (the HOTP primitive, the random source, the key
  parser) is opaque and is passed on as it is.
\<close>

datatype error =
  ErrGenerateMissingIssuer
| ErrGenerateMissingAccountName
| ExternalError string

text \<open>
  Modelled from the spec: \<^verbatim>\<open>Algorithm.String\<close> and \<^verbatim>\<open>Digits.String\<close> are not in the source
  file either. The spec renders both by their canonical names, such as \<open>SHA1\<close> and \<open>6\<close>: the
  name of the algorithm, and the digit count in decimal.
\<close>

fun Algorithm_String :: "Algorithm \<Rightarrow> string" where
  "Algorithm_String AlgorithmSHA1 = ''SHA1''"
| "Algorithm_String AlgorithmSHA256 = ''SHA256''"
| "Algorithm_String AlgorithmSHA512 = ''SHA512''"

text \<open>The decimal digits of a number that is not negative.\<close>

function decimal :: "int \<Rightarrow> string" where
  "decimal n = (if n < 10 then [char_of (48 + n)] else decimal (n div 10) @ [char_of (48 + n mod 10)])"
  by pat_completeness auto
termination
  by (relation "measure nat") auto

declare decimal.simps [simp del]

definition Digits_String :: "Digits \<Rightarrow> string" where
  "Digits_String d = (if d < 0 then CHR ''-'' # decimal (- d) else decimal d)"

text \<open>\<^verbatim>\<open>strconv.FormatUint(x, 10)\<close>\<close>

definition FormatUint :: "uint64 \<Rightarrow> string" where
  "FormatUint x = decimal (uint x)"

record hotp_ValidateOpts =
  Digits :: Digits
  Algorithm :: Algorithm

text \<open>
  The HOTP primitive is outside this package: both of its functions are parameters of the
  model. As in Go they return a value and an error (\<open>None\<close> is \<^verbatim>\<open>nil\<close>).
\<close>

type_synonym hotp_generate = "string \<Rightarrow> uint64 \<Rightarrow> hotp_ValidateOpts \<Rightarrow> string \<times> error option"
type_synonym hotp_validate = "string \<Rightarrow> uint64 \<Rightarrow> string \<Rightarrow> hotp_ValidateOpts \<Rightarrow> bool \<times> error option"

section \<open>Options of provisioning\<close>

text \<open>
  An \<^verbatim>\<open>io.Reader\<close>, as far as one call of \<^verbatim>\<open>Read\<close> goes: for a buffer of the given length
  the reader delivers some bytes and returns a count and an error. \<^verbatim>\<open>Read\<close> writes the bytes
  over the front of the buffer and leaves the rest of it as it was.
\<close>

type_synonym Reader = "nat \<Rightarrow> byte list \<times> int \<times> error option"

definition Read :: "Reader \<Rightarrow> byte list \<Rightarrow> byte list \<times> int \<times> error option" where
  "Read r p =
     (case r (length p) of
        (data, n, err) \<Rightarrow> (take (length p) data @ drop (length data) p, n, err))"

record GenerateOpts =
  Issuer :: string
  AccountName :: string
  Period :: "64 word"
  SecretSize :: "64 word"
  Secret :: "byte list"
  Digits :: Digits
  Algorithm :: Algorithm
  Rand :: "Reader option"

section \<open>Options of validation\<close>

record ValidateOpts =
  Period :: "64 word"
  Skew :: "64 word"
  Digits :: Digits
  Algorithm :: Algorithm

text \<open>\<^verbatim>\<open>new(ValidateOpts)\<close>: every field has its zero value.\<close>

definition new_ValidateOpts :: ValidateOpts where
  "new_ValidateOpts = \<lparr>Period = 0, Skew = 0, Digits = 0, Algorithm = AlgorithmSHA1\<rparr>"

definition defaultOpts :: "ValidateOpts \<Rightarrow> ValidateOpts" where
  "defaultOpts opts =
     (let opts1 = (if Skew opts = 0 then opts\<lparr>Skew := 30\<rparr> else opts);
          opts2 = (if ValidateOpts.Digits opts1 = 0 then opts1\<lparr>Digits := DigitsSix\<rparr> else opts1)
      in if Period opts2 = 0 then opts2\<lparr>Period := 30\<rparr> else opts2)"

type_synonym ValidateOpt = "ValidateOpts \<Rightarrow> ValidateOpts"

definition WithPeriod :: "64 word \<Rightarrow> ValidateOpt" where
  "WithPeriod period = (\<lambda>opt. opt\<lparr>Period := period\<rparr>)"

definition WithSkew :: "64 word \<Rightarrow> ValidateOpt" where
  "WithSkew skew = (\<lambda>opt. opt\<lparr>Skew := skew\<rparr>)"

definition WithDigits :: "Digits \<Rightarrow> ValidateOpt" where
  "WithDigits digits = (\<lambda>opt. opt\<lparr>Digits := digits\<rparr>)"

definition WithAlgorithm :: "Algorithm \<Rightarrow> ValidateOpt" where
  "WithAlgorithm algo = (\<lambda>opt. opt\<lparr>Algorithm := algo\<rparr>)"

text \<open>The loop \<^verbatim>\<open>for _, opt := range validateOpts { opt(opts) }\<close>.\<close>

fun apply_opts :: "ValidateOpt list \<Rightarrow> ValidateOpts \<Rightarrow> ValidateOpts" where
  "apply_opts [] opts = opts"
| "apply_opts (opt # rest) opts = apply_opts rest (opt opts)"

text \<open>The options both entry points work with: the option functions, then the defaults.\<close>

definition resolve :: "ValidateOpt list \<Rightarrow> ValidateOpts" where
  "resolve validateOpts = defaultOpts (apply_opts validateOpts new_ValidateOpts)"

definition hotp_opts :: "ValidateOpts \<Rightarrow> hotp_ValidateOpts" where
  "hotp_opts opts =
     \<lparr>hotp_ValidateOpts.Digits = ValidateOpts.Digits opts,
      hotp_ValidateOpts.Algorithm = ValidateOpts.Algorithm opts\<rparr>"

section \<open>The counter\<close>

text \<open>A \<^verbatim>\<open>time.Time\<close> enters the package only through \<^verbatim>\<open>t.Unix()\<close>, an \<^verbatim>\<open>int64\<close>.\<close>

datatype Time = Time (Unix: int64)

text \<open>\<^verbatim>\<open>math.Floor(float64(t.Unix()) / float64(opts.Period))\<close>\<close>

definition floor_quotient :: "Time \<Rightarrow> ValidateOpts \<Rightarrow> float64" where
  "floor_quotient t opts =
     math_Floor (float64_div (float64_of_int64 (Unix t)) (float64_of_uint (Period opts)))"

text \<open>The variable \<^verbatim>\<open>counter\<close> of \<^verbatim>\<open>GenerateCodeCustom\<close>: \<^verbatim>\<open>uint64(math.Floor(...))\<close>.\<close>

definition GenerateCodeCustom_counter :: "platform \<Rightarrow> Time \<Rightarrow> ValidateOpts \<Rightarrow> uint64" where
  "GenerateCodeCustom_counter pf t opts = uint64_of_float64 pf (floor_quotient t opts)"

text \<open>
  The variable \<^verbatim>\<open>counter\<close> of \<^verbatim>\<open>ValidateCustom\<close>: \<^verbatim>\<open>int64(math.Floor(...))\<close>, appended to
  the candidates as \<^verbatim>\<open>uint64(counter)\<close>, which keeps the bits.
\<close>

definition ValidateCustom_counter :: "platform \<Rightarrow> Time \<Rightarrow> ValidateOpts \<Rightarrow> int64" where
  "ValidateCustom_counter pf t opts = int64_of_float64 pf (floor_quotient t opts)"

section \<open>Generation of a passcode\<close>

definition GenerateCodeCustom ::
  "platform \<Rightarrow> hotp_generate \<Rightarrow> string \<Rightarrow> Time \<Rightarrow> ValidateOpt list \<Rightarrow> string \<times> error option" where
  "GenerateCodeCustom pf hotp_GenerateCodeCustom secret t validateOpts =
     (let opts = resolve validateOpts;
          counter = GenerateCodeCustom_counter pf t opts
      in case hotp_GenerateCodeCustom secret counter (hotp_opts opts) of
           (passcode, Some err) \<Rightarrow> ([], Some err)
         | (passcode, None) \<Rightarrow> (passcode, None))"

section \<open>Validation of a passcode\<close>

text \<open>
  The loop that fills \<^verbatim>\<open>counters\<close>: \<^verbatim>\<open>for i := 1; i <= int(opts.Skew); i++\<close>. The bound is the
  skew read as a signed number and \<open>i\<close> is an \<^verbatim>\<open>int\<close>, so \<open>i + 1\<close> wraps. With the bound at
  \<open>2\<^sup>6\<^sup>3 - 1\<close> the test never fails and the loop does not end: the function is partial, and
  \<open>None\<close> is the run that does not return. (The memory such a run needs is not modelled.)
\<close>

partial_function (option) window_loop ::
  "int64 \<Rightarrow> 64 word \<Rightarrow> 64 word \<Rightarrow> uint64 list \<Rightarrow> uint64 list option" where
  [code]: "window_loop counter bound i counters =
     (if i \<le>s bound
      then window_loop counter bound (i + 1) (counters @ [counter + i, counter - i])
      else Some counters)"

definition window :: "int64 \<Rightarrow> 64 word \<Rightarrow> uint64 list option" where
  "window counter skew = window_loop counter skew 1 [counter]"

text \<open>
  The loop over the candidates. \<open>check c\<close> is the call of the HOTP primitive on the counter
  \<open>c\<close>. Beside the result, the model returns the counters the primitive was called on, in the
  order of the calls.
\<close>

fun validate_loop ::
  "(uint64 \<Rightarrow> bool \<times> error option) \<Rightarrow> uint64 list \<Rightarrow> uint64 list \<Rightarrow> (bool \<times> error option) \<times> uint64 list" where
  "validate_loop check [] calls = ((False, None), calls)"
| "validate_loop check (counter # rest) calls =
     (case check counter of
        (rv, Some err) \<Rightarrow> ((False, Some err), calls @ [counter])
      | (rv, None) \<Rightarrow>
          if rv then ((True, None), calls @ [counter])
          else validate_loop check rest (calls @ [counter]))"

definition ValidateCustom_calls ::
  "platform \<Rightarrow> hotp_validate \<Rightarrow> string \<Rightarrow> string \<Rightarrow> Time \<Rightarrow> ValidateOpt list
     \<Rightarrow> ((bool \<times> error option) \<times> uint64 list) option" where
  "ValidateCustom_calls pf hotp_ValidateCustom passcode secret t validateOpts =
     (let opts = resolve validateOpts;
          counter = ValidateCustom_counter pf t opts
      in case window counter (Skew opts) of
           None \<Rightarrow> None
         | Some counters \<Rightarrow>
             Some (validate_loop (\<lambda>c. hotp_ValidateCustom passcode c secret (hotp_opts opts))
                     counters []))"

text \<open>What the caller sees of \<^verbatim>\<open>ValidateCustom\<close>: the pair it returns, if it returns.\<close>

definition ValidateCustom ::
  "platform \<Rightarrow> hotp_validate \<Rightarrow> string \<Rightarrow> string \<Rightarrow> Time \<Rightarrow> ValidateOpt list
     \<Rightarrow> (bool \<times> error option) option" where
  "ValidateCustom pf hotp_ValidateCustom passcode secret t validateOpts =
     map_option fst (ValidateCustom_calls pf hotp_ValidateCustom passcode secret t validateOpts)"

text \<open>
  The window in the words of the spec, to compare with the loop of the source: the base
  counter, then \<open>base + i\<close> and \<open>base - i\<close> for \<open>i\<close> from 1 to the skew, in 64-bit arithmetic.
\<close>

definition spec_window :: "uint64 \<Rightarrow> nat \<Rightarrow> uint64 list" where
  "spec_window base s = base # concat (map (\<lambda>i. [base + of_nat i, base - of_nat i]) [1..<Suc s])"

text \<open>
  A stand-in for the HOTP primitive, to run the model on concrete inputs: the passcode at
  hand is the code of the counter \<open>c0\<close> and of no other counter, and no call fails.
\<close>

definition hotp_accepting :: "uint64 \<Rightarrow> hotp_validate" where
  "hotp_accepting c0 passcode counter secret opts = (counter = c0, None)"

text \<open>
  A second stand-in: the call on the counter \<open>bad\<close> fails with \<open>err\<close>; otherwise the passcode
  is the code of the counter \<open>good\<close>.
\<close>

definition hotp_failing :: "uint64 \<Rightarrow> error \<Rightarrow> uint64 \<Rightarrow> hotp_validate" where
  "hotp_failing bad err good passcode counter secret opts =
     (if counter = bad then (False, Some err) else (counter = good, None))"

text \<open>
  Modelled from the spec: the function that validates with the HOTP primitive is not in the
  source file. The spec gives it the contract \<open>validateHOTP(passcode, counter, secret, digits,
  algorithm) -> bool | error\<close>, a match of the passcode with the one the primitive generates
  for that counter. This is the validation that belongs to a generation function.
\<close>

definition hotp_validate_of :: "hotp_generate \<Rightarrow> hotp_validate" where
  "hotp_validate_of generate passcode counter secret opts =
     (case generate secret counter opts of
        (code, Some err) \<Rightarrow> (False, Some err)
      | (code, None) \<Rightarrow> (passcode = code, None))"

text \<open>
  A stand-in for the generation of the HOTP primitive, to run the model on concrete inputs:
  the passcode of a counter is the counter in decimal, so two counters never share a passcode.
\<close>

definition hotp_decimal :: hotp_generate where
  "hotp_decimal secret counter opts = (FormatUint counter, None)"

section \<open>Provisioning of a key\<close>

text \<open>
  \<^verbatim>\<open>base32.StdEncoding.WithPadding(base32.NoPadding)\<close>: the bits of the input, most
  significant first, are cut into groups of five, the last group filled up with zero bits, and
  each group selects a character of the alphabet of RFC 4648. No padding character is added.
\<close>

definition b32_alphabet :: string where
  "b32_alphabet = ''ABCDEFGHIJKLMNOPQRSTUVWXYZ234567''"

definition bits_of_byte :: "byte \<Rightarrow> bool list" where
  "bits_of_byte b = map (bit b) [7, 6, 5, 4, 3, 2, 1, 0]"

fun group5 :: "bool list \<Rightarrow> bool list list" where
  "group5 (a # b # c # d # e # rest) = [a, b, c, d, e] # group5 rest"
| "group5 [] = []"
| "group5 bs = [take 5 (bs @ replicate 4 False)]"

definition bits_to_nat :: "bool list \<Rightarrow> nat" where
  "bits_to_nat bs = foldl (\<lambda>n b. 2 * n + (if b then 1 else 0)) 0 bs"

definition b32NoPadding_EncodeToString :: "byte list \<Rightarrow> string" where
  "b32NoPadding_EncodeToString src =
     map (\<lambda>g. b32_alphabet ! bits_to_nat g) (group5 (concat (map bits_of_byte src)))"

text \<open>
  Package \<^verbatim>\<open>net/url\<close>, as far as \<^verbatim>\<open>Generate\<close> uses it. \<^verbatim>\<open>shouldEscape\<close> says which bytes
  are percent-encoded in a host, in a path and in a component of a query; in a query component
  a space becomes \<open>+\<close>.
\<close>

datatype encoding = encodePath | encodeHost | encodeQueryComponent

definition in_range :: "char \<Rightarrow> char \<Rightarrow> char \<Rightarrow> bool" where
  "in_range lo hi c = (lo \<le> c \<and> c \<le> hi)"

definition alphanumeric :: "char \<Rightarrow> bool" where
  "alphanumeric c =
     (in_range CHR ''a'' CHR ''z'' c \<or> in_range CHR ''A'' CHR ''Z'' c \<or> in_range CHR ''0'' CHR ''9'' c)"

definition shouldEscape :: "char \<Rightarrow> encoding \<Rightarrow> bool" where
  "shouldEscape c mode =
     (if alphanumeric c then False
      else if mode = encodeHost \<and> c \<in> set ''!$&'()*+,;=:[]<>\"'' then False
      else if c \<in> set ''-_.~'' then False
      else if c \<in> set ''$&+,/:;=?@'' \<and> mode = encodePath then c = CHR ''?''
      else True)"

definition upperhex :: string where
  "upperhex = ''0123456789ABCDEF''"

definition escape :: "string \<Rightarrow> encoding \<Rightarrow> string" where
  "escape s mode =
     concat (map (\<lambda>c.
       if shouldEscape c mode then
         (if c = CHR '' '' \<and> mode = encodeQueryComponent then ''+''
          else [CHR ''%'', upperhex ! (of_char c div 16), upperhex ! (of_char c mod 16)])
       else [c]) s)"

definition QueryEscape :: "string \<Rightarrow> string" where
  "QueryEscape s = escape s encodeQueryComponent"

text \<open>
  \<^verbatim>\<open>url.Values\<close> is a map from a key to a list of values, here an association list with one
  entry for a key. \<^verbatim>\<open>Set\<close> replaces the values of a key by one value. \<^verbatim>\<open>Encode\<close> writes
  \<open>key=value\<close> for every value, both escaped, joined by \<open>&\<close> and sorted by key (the order of
  strings is the order of their bytes).
\<close>

type_synonym Values = "(string \<times> string list) list"

definition Values_Set :: "Values \<Rightarrow> string \<Rightarrow> string \<Rightarrow> Values" where
  "Values_Set v key val = (key, [val]) # filter (\<lambda>kv. fst kv \<noteq> key) v"

fun join_amp :: "string list \<Rightarrow> string" where
  "join_amp [] = []"
| "join_amp [x] = x"
| "join_amp (x # y # rest) = x @ ''&'' @ join_amp (y # rest)"

definition Values_Encode :: "Values \<Rightarrow> string" where
  "Values_Encode v =
     join_amp (concat (map (\<lambda>kv. map (\<lambda>x. QueryEscape (fst kv) @ ''='' @ QueryEscape x) (snd kv))
       (sort_key fst v)))"

text \<open>
  The four fields of \<^verbatim>\<open>url.URL\<close> that \<^verbatim>\<open>Generate\<close> sets; every other field has its zero value.
  \<^verbatim>\<open>String\<close> is given for such a URL with a scheme, a host and a path that begins with a
  slash: the scheme, \<open>://\<close>, the escaped host, the escaped path, and the query after \<open>?\<close> when
  there is one.
\<close>

record URL =
  Scheme :: string
  Host :: string
  Path :: string
  RawQuery :: string

definition URL_String :: "URL \<Rightarrow> string" where
  "URL_String u =
     Scheme u @ '':'' @ ''//'' @ escape (Host u) encodeHost @ escape (Path u) encodePath
     @ (if RawQuery u \<noteq> [] then ''?'' @ RawQuery u else [])"

text \<open>The URL that \<^verbatim>\<open>Generate\<close> assembles from the options and the bytes of the secret.\<close>

definition key_URL :: "GenerateOpts \<Rightarrow> byte list \<Rightarrow> URL" where
  "key_URL opts secret =
     (let v0 = Values_Set [] ''secret'' (b32NoPadding_EncodeToString secret);
          v1 = Values_Set v0 ''issuer'' (Issuer opts);
          v2 = Values_Set v1 ''period'' (FormatUint (GenerateOpts.Period opts));
          v3 = Values_Set v2 ''algorithm'' (Algorithm_String (GenerateOpts.Algorithm opts));
          v4 = Values_Set v3 ''digits'' (Digits_String (GenerateOpts.Digits opts))
      in \<lparr>Scheme = ''otpauth'', Host = ''totp'',
          Path = ''/'' @ Issuer opts @ '':'' @ AccountName opts,
          RawQuery = Values_Encode v4\<rparr>)"

text \<open>The four defaults of \<^verbatim>\<open>Generate\<close>; \<open>rand_Reader\<close> is \<^verbatim>\<open>crypto/rand.Reader\<close>.\<close>

definition Generate_defaults :: "Reader \<Rightarrow> GenerateOpts \<Rightarrow> GenerateOpts" where
  "Generate_defaults rand_Reader opts0 =
     (let opts1 = (if GenerateOpts.Period opts0 = 0 then opts0\<lparr>GenerateOpts.Period := 30\<rparr> else opts0);
          opts2 = (if SecretSize opts1 = 0 then opts1\<lparr>SecretSize := 20\<rparr> else opts1);
          opts3 = (if GenerateOpts.Digits opts2 = 0 then opts2\<lparr>GenerateOpts.Digits := DigitsSix\<rparr> else opts2)
      in if Rand opts3 = None then opts3\<lparr>Rand := Some rand_Reader\<rparr> else opts3)"

text \<open>
  \<^verbatim>\<open>Generate\<close>. The key parser \<^verbatim>\<open>otp.NewKeyFromURL\<close> is outside the source file and is a
  parameter; like \<^verbatim>\<open>Generate\<close> it returns a key and an error. Beside the result, the model
  returns the reads it made of the random source, each by the length of its buffer. (The memory
  that \<^verbatim>\<open>make([]byte, opts.SecretSize)\<close> needs is not modelled.)
\<close>

definition Generate ::
  "Reader \<Rightarrow> (string \<Rightarrow> 'k option \<times> error option) \<Rightarrow> GenerateOpts
     \<Rightarrow> ('k option \<times> error option) \<times> nat list" where
  "Generate rand_Reader NewKeyFromURL opts0 =
     (if Issuer opts0 = [] then ((None, Some ErrGenerateMissingIssuer), [])
      else if AccountName opts0 = [] then ((None, Some ErrGenerateMissingAccountName), [])
      else
        let opts = Generate_defaults rand_Reader opts0
        in if length (Secret opts) \<noteq> 0
           then (NewKeyFromURL (URL_String (key_URL opts (Secret opts))), [])
           else
             (case Read (case Rand opts of Some r \<Rightarrow> r | None \<Rightarrow> rand_Reader)
                     (replicate (unat (SecretSize opts)) 0) of
                (secret, n, Some err) \<Rightarrow> ((None, Some err), [unat (SecretSize opts)])
              | (secret, n, None) \<Rightarrow>
                  (NewKeyFromURL (URL_String (key_URL opts secret)), [unat (SecretSize opts)])))"

text \<open>
  Stand-ins to run \<^verbatim>\<open>Generate\<close> on concrete inputs: a key parser that accepts every URI and
  keeps it as the key; a random source that delivers one byte where more are asked for and
  reports no error; a random source that fails; and the options of the example of the spec,
  with the ten bytes that \<open>JBSWY3DPEHPK3PXP\<close> encodes as the secret.
\<close>

definition accept_any_URL :: "string \<Rightarrow> string option \<times> error option" where
  "accept_any_URL orig = (Some orig, None)"

definition short_Reader :: Reader where
  "short_Reader n = ([65], 1, None)"

definition failing_Reader :: "error \<Rightarrow> Reader" where
  "failing_Reader err n = ([], 0, Some err)"

definition example_opts :: GenerateOpts where
  "example_opts =
     \<lparr>Issuer = ''Example'', AccountName = ''alice@example.com'', GenerateOpts.Period = 30,
      SecretSize = 0, Secret = [72, 101, 108, 108, 111, 33, 222, 173, 190, 239],
      GenerateOpts.Digits = 6, GenerateOpts.Algorithm = AlgorithmSHA1, Rand = None\<rparr>"

section \<open>Properties of the number model\<close>

lemma rhe_ge: "of_int k \<le> y \<Longrightarrow> k \<le> round_half_even y"
proof -
  assume "of_int k \<le> y"
  then have "k \<le> \<lfloor>y\<rfloor>" by (simp add: le_floor_iff)
  then show ?thesis by (auto simp: round_half_even_def Let_def)
qed

lemma rhe_le: "y \<le> of_int k \<Longrightarrow> round_half_even y \<le> k"
proof -
  assume h: "y \<le> of_int k"
  show ?thesis
  proof (cases "y = of_int k")
    case True
    then show ?thesis by (simp add: round_half_even_def Let_def)
  next
    case False
    with h have "y < of_int k" by simp
    then have "\<lfloor>y\<rfloor> < k" by (simp add: floor_less_iff)
    then show ?thesis by (auto simp: round_half_even_def Let_def)
  qed
qed

lemma rhe_lt: "y < of_int k - 1 / 2 \<Longrightarrow> round_half_even y < k"
proof -
  assume h: "y < of_int k - 1 / 2"
  then have "y < of_int k" by linarith
  then have a: "\<lfloor>y\<rfloor> < k" by (simp add: floor_less_iff)
  have b: "\<lfloor>y\<rfloor> = k - 1 \<Longrightarrow> y - of_int \<lfloor>y\<rfloor> < 1 / 2" using h by simp
  from a b show ?thesis
    by (cases "\<lfloor>y\<rfloor> = k - 1") (auto simp: round_half_even_def Let_def)
qed

lemma ilog2_lower: "x \<noteq> 0 \<Longrightarrow> power_int 2 (ilog2 x) \<le> \<bar>x\<bar>"
proof (cases "1 \<le> \<bar>x\<bar>")
  case True
  let ?n = "\<lfloor>\<bar>x\<bar>\<rfloor>"
  from True have pos: "0 < ?n" by (simp add: less_floor_iff) 
  have nn: "0 \<le> bitlen ?n - 1" using pos bitlen_bounds[OF pos] 
    by (metis bitlen_nonneg bitlen_eq_zero_iff diff_ge_0_iff_ge int_one_le_iff_zero_less le_less not_le) 
  have "(2::int) ^ nat (bitlen ?n - 1) \<le> ?n" using bitlen_bounds[OF pos] by simp
  then have "(of_int ((2::int) ^ nat (bitlen ?n - 1)) :: rat) \<le> of_int ?n" by (simp only: of_int_le_iff)
  also have "\<dots> \<le> \<bar>x\<bar>" by simp
  finally have "(2::rat) ^ nat (bitlen ?n - 1) \<le> \<bar>x\<bar>" by simp
  with True nn show ?thesis by (simp add: ilog2_def power_int_def)
next
  case False
  assume nz: "x \<noteq> 0"
  let ?y = "1 / \<bar>x\<bar>"
  let ?n = "\<lceil>?y\<rceil> - 1"
  from False nz have y1: "1 < ?y" by simp
  then have pos: "0 < ?n" by (simp add: less_ceiling_iff)
  have "?n < (2::int) ^ nat (bitlen ?n)" using bitlen_bounds[OF pos] by simp
  then have "\<lceil>?y\<rceil> \<le> (2::int) ^ nat (bitlen ?n)" by simp
  then have "?y \<le> of_int ((2::int) ^ nat (bitlen ?n))" by (simp only: ceiling_le_iff)
  then have "?y \<le> 2 ^ nat (bitlen ?n)" by simp
  then have "1 / 2 ^ nat (bitlen ?n) \<le> \<bar>x\<bar>" using nz
    by (simp add: field_simps)
  moreover have "0 < bitlen ?n" using pos bitlen_eq_zero_iff[of ?n] bitlen_nonneg[of ?n] by linarith
  ultimately show ?thesis using False by (simp add: ilog2_def power_int_def inverse_eq_divide power_one_over)
qed


lemma scaled_lower:
  assumes "x \<noteq> 0"
  shows "2 ^ 52 \<le> \<bar>x\<bar> / power_int 2 (ilog2 x - 52)"
proof -
  have "power_int (2::rat) (ilog2 x - 52) = power_int 2 (ilog2 x) / 2 ^ 52"
    by (simp add: power_int_diff)
  then show ?thesis using ilog2_lower[OF assms]
    by (simp add: field_simps)
qed

lemma ilog2_small: "x \<noteq> 0 \<Longrightarrow> \<bar>x\<bar> < 2 ^ 53 \<Longrightarrow> ilog2 x < 53"
proof (rule ccontr)
  assume nz: "x \<noteq> 0" and lt: "\<bar>x\<bar> < 2 ^ 53" and "\<not> ilog2 x < 53"
  then have "53 \<le> ilog2 x" by simp
  then have "power_int (2::rat) 53 \<le> power_int 2 (ilog2 x)"
    by (intro power_int_increasing) simp_all
  with ilog2_lower[OF nz] lt show False by simp
qed

lemma ilog2_frac: "x \<noteq> 0 \<Longrightarrow> \<bar>x\<bar> < 1 \<Longrightarrow> ilog2 x < 0"
proof -
  assume nz: "x \<noteq> 0" and lt: "\<bar>x\<bar> < 1"
  then have "1 < 1 / \<bar>x\<bar>" by simp
  then have pos: "0 < \<lceil>1 / \<bar>x\<bar>\<rceil> - 1" by (simp add: less_ceiling_iff)
  have "0 < bitlen (\<lceil>1 / \<bar>x\<bar>\<rceil> - 1)"
    using pos bitlen_eq_zero_iff[of "\<lceil>1 / \<bar>x\<bar>\<rceil> - 1"] bitlen_nonneg[of "\<lceil>1 / \<bar>x\<bar>\<rceil> - 1"] by linarith
  with lt show ?thesis by (simp add: ilog2_def)
qed

text \<open>With a non-positive exponent the scaling is a multiplication by a power of two.\<close>

lemma round_f64_scaled:
  assumes "x \<noteq> 0" "ilog2 x - 52 \<le> 0"
  shows "round_f64 x = of_int (round_half_even (x * 2 ^ nat (52 - ilog2 x))) / 2 ^ nat (52 - ilog2 x)"
proof -
  have "power_int (2::rat) (ilog2 x - 52) = 1 / 2 ^ nat (52 - ilog2 x)"
    using assms(2) power_int_minus_divide[of "2::rat" "52 - ilog2 x"]
    by (simp add: power_int_def)
  then show ?thesis using assms(1) by (simp add: round_f64_def Let_def)
qed

lemma scaled_lower_pos:
  assumes "x \<noteq> 0" "ilog2 x - 52 \<le> 0"
  shows "2 ^ 52 \<le> \<bar>x\<bar> * 2 ^ nat (52 - ilog2 x)"
proof -
  have "power_int (2::rat) (ilog2 x - 52) = 1 / 2 ^ nat (52 - ilog2 x)"
    using assms(2) power_int_minus_divide[of "2::rat" "52 - ilog2 x"]
    by (simp add: power_int_def)
  with scaled_lower[OF assms(1)] show ?thesis by simp
qed


lemma abs_of_int_lt: "\<bar>n\<bar> < 2 ^ 53 \<Longrightarrow> \<bar>of_int n :: rat\<bar> < 2 ^ 53"
proof -
  assume "\<bar>n\<bar> < 2 ^ 53"
  then have "(of_int \<bar>n\<bar> :: rat) < of_int (2 ^ 53)" by (simp only: of_int_less_iff)
  then show ?thesis by simp
qed

lemma rhe_of_int: "round_half_even (of_int m) = m"
  by (simp add: round_half_even_def)

lemma round_f64_int_exact:
  assumes "\<bar>n\<bar> < 2 ^ 53"
  shows "round_f64 (of_int n) = of_int n"
proof (cases "n = 0")
  case True
  then show ?thesis by (simp add: round_f64_def)
next
  case False
  let ?x = "of_int n :: rat"
  have nz: "?x \<noteq> 0" using False by simp
  have "\<bar>?x\<bar> < 2 ^ 53" using assms by (rule abs_of_int_lt)
  then have e: "ilog2 ?x - 52 \<le> 0" using ilog2_small[OF nz] by simp
  have "?x * 2 ^ nat (52 - ilog2 ?x) = of_int (n * 2 ^ nat (52 - ilog2 ?x))" by simp
  then have "round_half_even (?x * 2 ^ nat (52 - ilog2 ?x)) = n * 2 ^ nat (52 - ilog2 ?x)"
    by (simp only: rhe_of_int)
  then show ?thesis by (simp add: round_f64_scaled[OF nz e])
qed

lemma floor_round_f64_quot:
  fixes a p :: int
  assumes a: "\<bar>a\<bar> < 2 ^ 53" and p: "1 \<le> p"
  shows "\<lfloor>round_f64 (of_int a / of_int p)\<rfloor> = a div p"
proof (cases "a = 0")
  case True
  then show ?thesis by (simp add: round_f64_def)
next
  case False
  let ?x = "of_int a / of_int p :: rat"
  let ?n = "a div p"
  have nz: "?x \<noteq> 0" using False p by simp
  have pr: "(1::rat) \<le> of_int p" using p by simp
  have "\<bar>?x\<bar> \<le> \<bar>of_int a\<bar>"
    using pr mult_left_mono[of 1 "of_int p :: rat" "\<bar>of_int a\<bar>"]
    by (simp add: field_simps)
  also have "\<dots> < 2 ^ 53" using a by (rule abs_of_int_lt)
  finally have xlt: "\<bar>?x\<bar> < 2 ^ 53" .
  then have e: "ilog2 ?x - 52 \<le> 0" using ilog2_small[OF nz] by simp
  define s :: int where "s = 2 ^ nat (52 - ilog2 ?x)"
  have spos: "0 < s" by (simp add: s_def)
  have sr: "(2::rat) ^ nat (52 - ilog2 ?x) = of_int s" by (simp add: s_def)
  define m where "m = round_half_even (?x * of_int s)"
  have r: "round_f64 ?x = of_int m / of_int s"
    using round_f64_scaled[OF nz e] by (simp add: sr m_def)
  have nx: "of_int ?n \<le> ?x" using p
    by (metis floor_divide_of_int_eq of_int_floor_le)
  have lo: "?n * s \<le> m"
  proof -
    have "of_int ?n * of_int s \<le> ?x * of_int s"
      by (rule mult_right_mono[OF nx]) (use spos in simp)
    then have "of_int (?n * s) \<le> ?x * of_int s" by (simp only: of_int_mult)
    then show ?thesis unfolding m_def by (rule rhe_ge)
  qed
  have "a mod p < p" using p by simp
  moreover have "a = ?n * p + a mod p" by simp
  ultimately have "a < ?n * p + p" by linarith
  then have "a < (?n + 1) * p" by (simp add: algebra_simps)
  then have "a \<le> (?n + 1) * p - 1" by simp
  then have "(of_int a :: rat) \<le> of_int ((?n + 1) * p - 1)" by (simp only: of_int_le_iff)
  then have ax: "?x \<le> of_int (?n + 1) - 1 / of_int p" using p
    by (simp add: field_simps)
  have half: "1 / 2 < (of_int s :: rat) / of_int p"
  proof -
    have "2 ^ 52 \<le> \<bar>?x\<bar> * of_int s" using scaled_lower_pos[OF nz e] by (simp add: sr)
    also have "\<bar>?x\<bar> * of_int s = \<bar>of_int a\<bar> * (of_int s / of_int p)" using p by simp
    also have "\<dots> < 2 ^ 53 * (of_int s / of_int p)"
      by (rule mult_strict_right_mono[OF abs_of_int_lt[OF a]]) (use spos p in simp)
    finally show ?thesis by simp
  qed
  have hi: "m < (?n + 1) * s"
  proof -
    have "?x * of_int s \<le> (of_int (?n + 1) - 1 / of_int p) * of_int s"
      by (rule mult_right_mono[OF ax]) (use spos in simp)
    also have "\<dots> = of_int ((?n + 1) * s) - of_int s / of_int p" by (simp add: algebra_simps)
    also have "\<dots> < of_int ((?n + 1) * s) - 1 / 2" using half by simp
    finally show ?thesis unfolding m_def by (rule rhe_lt)
  qed
  have "\<lfloor>(of_int m :: rat) / of_int s\<rfloor> = m div s" by (rule floor_divide_of_int_eq)
  also have "m div s = ?n" 
  proof -
    have "?n * s \<le> m" "m < (?n + 1) * s" using lo hi by auto
    then show ?thesis
      by (intro int_div_pos_eq[where r = "m - s * ?n"]) (simp_all add: algebra_simps)
  qed
  finally show ?thesis using r by simp
qed


lemma round_f64_small_pos:
  assumes "0 < x" "x \<le> 1 - 1 / 2 ^ 53"
  shows "0 \<le> round_f64 x \<and> round_f64 x < 1"
proof -
  have nz: "x \<noteq> 0" using assms by simp
  have "\<bar>x\<bar> < 1" using assms by simp
  then have lt: "ilog2 x < 0" using ilog2_frac[OF nz] by simp
  then have e: "ilog2 x - 52 \<le> 0" by simp
  define k where "k = nat (52 - ilog2 x)"
  define s :: int where "s = 2 ^ k"
  have k53: "53 \<le> k" using lt by (simp add: k_def)
  have spos: "0 < s" by (simp add: s_def)
  have sr: "(2::rat) ^ k = of_int s" by (simp add: s_def)
  have "(2::int) ^ 53 \<le> 2 ^ k" using k53 by (intro power_increasing) simp_all
  then have sbig: "(2::rat) ^ 53 \<le> of_int s" unfolding s_def
    by (metis of_int_le_iff of_int_numeral of_int_power)
  define m where "m = round_half_even (x * of_int s)"
  have r: "round_f64 x = of_int m / of_int s"
    using round_f64_scaled[OF nz e] by (simp add: sr m_def k_def[symmetric])
  have "of_int 0 \<le> x * of_int s" using assms(1) spos by simp
  then have m0: "0 \<le> m" unfolding m_def by (rule rhe_ge)
  have "x * of_int s \<le> (1 - 1 / 2 ^ 53) * of_int s"
    by (rule mult_right_mono[OF assms(2)]) (use spos in simp)
  also have "\<dots> = of_int s - of_int s / 2 ^ 53" by (simp add: algebra_simps)
  also have "\<dots> \<le> of_int s - 1" using sbig by (simp add: field_simps)
  also have "\<dots> = of_int (s - 1)" by simp
  finally have "m \<le> s - 1" unfolding m_def by (rule rhe_le)
  then have "m < s" by simp
  then have "(of_int m :: rat) < of_int s" by (simp only: of_int_less_iff)
  with m0 spos show ?thesis by (simp add: r)
qed

lemma round_f64_small_neg:
  assumes "- 1 \<le> x" "x < 0"
  shows "- 1 \<le> round_f64 x \<and> round_f64 x < 0"
proof -
  have nz: "x \<noteq> 0" using assms by simp
  have "\<bar>x\<bar> < 2 ^ 53" using assms by simp
  then have e: "ilog2 x - 52 \<le> 0" using ilog2_small[OF nz] by simp
  define k where "k = nat (52 - ilog2 x)"
  define s :: int where "s = 2 ^ k"
  have spos: "0 < s" by (simp add: s_def)
  have sr: "(2::rat) ^ k = of_int s" by (simp add: s_def)
  define m where "m = round_half_even (x * of_int s)"
  have r: "round_f64 x = of_int m / of_int s"
    using round_f64_scaled[OF nz e] by (simp add: sr m_def k_def[symmetric])
  have "- 1 * of_int s \<le> x * of_int s"
    by (rule mult_right_mono[OF assms(1)]) (use spos in simp)
  then have "of_int (- s) \<le> x * of_int s" by simp
  then have lo: "- s \<le> m" unfolding m_def by (rule rhe_ge)
  have "2 ^ 52 \<le> \<bar>x\<bar> * of_int s" using scaled_lower_pos[OF nz e] by (simp add: sr k_def[symmetric])
  then have "x * of_int s \<le> of_int (- 1)" using assms(2) by simp
  then have hi: "m \<le> - 1" unfolding m_def by (rule rhe_le)
  from lo have "(of_int (- s) :: rat) \<le> of_int m" by (simp only: of_int_le_iff)
  moreover from hi have "(of_int m :: rat) < 0" by simp
  ultimately show ?thesis using spos by (simp add: r field_simps)
qed

lemma round_f64_big:
  fixes p :: int
  assumes "2 ^ 53 \<le> p"
  shows "2 ^ 53 \<le> round_f64 (of_int p)"
proof -
  let ?x = "of_int p :: rat"
  have "(0::int) < 2 ^ 53" by simp
  then have ppos: "0 < p" using assms by linarith
  have nz: "?x \<noteq> 0" using ppos by simp
  have xbig: "(2::rat) ^ 53 \<le> ?x" using assms
    by (metis of_int_le_iff of_int_numeral of_int_power)
  show ?thesis
  proof (cases "ilog2 ?x - 52 \<le> 0")
    case True
    have "?x * 2 ^ nat (52 - ilog2 ?x) = of_int (p * 2 ^ nat (52 - ilog2 ?x))" by simp
    then have "round_half_even (?x * 2 ^ nat (52 - ilog2 ?x)) = p * 2 ^ nat (52 - ilog2 ?x)"
      by (simp only: rhe_of_int)
    then have "round_f64 ?x = ?x" by (simp add: round_f64_scaled[OF nz True])
    with xbig show ?thesis by simp
  next
    case False
    define k where "k = nat (ilog2 ?x - 52)"
    have k1: "1 \<le> k" using False by (simp add: k_def)
    have pw: "power_int (2::rat) (ilog2 ?x - 52) = 2 ^ k" using False by (simp add: power_int_def k_def)
    define m where "m = round_half_even (?x / 2 ^ k)"
    have r: "round_f64 ?x = of_int m * 2 ^ k" using nz by (simp add: round_f64_def Let_def pw m_def)
    have "2 ^ 52 \<le> \<bar>?x\<bar> / 2 ^ k" using scaled_lower[OF nz] by (simp only: pw)
    then have "of_int (2 ^ 52) \<le> ?x / 2 ^ k" using ppos by simp
    then have "2 ^ 52 \<le> m" unfolding m_def by (rule rhe_ge)
    then have mr: "(2::rat) ^ 52 \<le> of_int m"
      by (metis of_int_le_iff of_int_numeral of_int_power)
    have "(2::rat) ^ 1 \<le> 2 ^ k" using k1 by (intro power_increasing) simp_all
    then have "(2::rat) ^ 52 * 2 \<le> of_int m * 2 ^ k" using mr
      by (intro mult_mono) simp_all
    then show ?thesis by (simp add: r)
  qed
qed


lemma trunc_of_int: "trunc_toward_zero (of_int n) = n"
  by (simp add: trunc_toward_zero_def)

lemma floor_quotient_exact:
  assumes a: "\<bar>sint (Unix t)\<bar> < 2 ^ 53" and p: "Period opts \<noteq> 0"
  shows "floor_quotient t opts = of_int (sint (Unix t) div uint (Period opts))"
proof -
  define a where "a = sint (Unix t)"
  define p where "p = uint (Period opts)"
  have a53: "\<bar>a\<bar> < 2 ^ 53" using a by (simp add: a_def)
  have "uint (Period opts) \<noteq> 0" using p by (simp add: uint_0_iff)
  moreover have "0 \<le> uint (Period opts)" by simp
  ultimately have p1: "1 \<le> p" unfolding p_def by linarith
  define c where "c = round_f64 (of_int p)"
  have fa: "float64_of_int64 (Unix t) = of_int a"
    using round_f64_int_exact[OF a53] by (simp add: float64_of_int64_def a_def)
  have fq: "floor_quotient t opts = of_int \<lfloor>round_f64 (of_int a / c)\<rfloor>"
    by (simp add: floor_quotient_def math_Floor_def float64_div_def fa float64_of_uint_def c_def p_def)
  have "\<lfloor>round_f64 (of_int a / c)\<rfloor> = a div p"
  proof (cases "p < 2 ^ 53")
    case True
    then have "\<bar>p\<bar> < 2 ^ 53" using p1 by simp
    then have "c = of_int p" unfolding c_def by (rule round_f64_int_exact)
    then show ?thesis using floor_round_f64_quot[OF a53 p1] by simp
  next
    case False
    then have pbig: "2 ^ 53 \<le> p" by simp
    then have cbig: "2 ^ 53 \<le> c" unfolding c_def by (rule round_f64_big)
    moreover have "(0::rat) < 2 ^ 53" by simp
    ultimately have cpos: "0 < c" by linarith
    have ar: "\<bar>of_int a :: rat\<bar> < 2 ^ 53" using a53 by (rule abs_of_int_lt)
    consider "a = 0" | "0 < a" | "a < 0" by linarith
    then show ?thesis
    proof cases
      case 1
      then show ?thesis by (simp add: round_f64_def)
    next
      case 2
      have "a \<le> 2 ^ 53 - 1" using a53 by simp
      then have "(of_int a :: rat) \<le> of_int (2 ^ 53 - 1)" by (simp only: of_int_le_iff)
      then have "(of_int a :: rat) \<le> 2 ^ 53 - 1" by simp
      then have "of_int a / c \<le> (2 ^ 53 - 1) / c" using cpos by (simp add: divide_right_mono)
      also have "\<dots> \<le> (2 ^ 53 - 1) / 2 ^ 53" using cbig by (intro divide_left_mono) simp_all
      also have "\<dots> = 1 - 1 / 2 ^ 53" by (simp add: field_simps)
      finally have hi: "of_int a / c \<le> 1 - 1 / 2 ^ 53" .
      have lo: "0 < of_int a / c" using 2 cpos by simp
      have "\<lfloor>round_f64 (of_int a / c)\<rfloor> = 0"
        using round_f64_small_pos[OF lo hi] by (simp add: floor_eq_iff)
      moreover have "a div p = 0" using 2 a53 pbig by (intro div_pos_pos_trivial) simp_all
      ultimately show ?thesis by simp
    next
      case 3
      have "- c < of_int a" using ar cbig by linarith
      then have lo: "- 1 \<le> of_int a / c" using cpos by (simp add: field_simps)
      have hi: "of_int a / c < 0" using 3 cpos by (simp add: field_simps)
      have "\<lfloor>round_f64 (of_int a / c)\<rfloor> = - 1"
        using round_f64_small_neg[OF lo hi] by (simp add: floor_eq_iff)
      moreover have "a div p = - 1"
        using 3 a53 pbig by (intro int_div_pos_eq[where r = "a + p"]) simp_all
      ultimately show ?thesis by simp
    qed
  qed
  then show ?thesis by (simp add: fq a_def p_def)
qed

lemma round_f64_nonneg: "0 \<le> x \<Longrightarrow> 0 \<le> round_f64 x"
proof (cases "x = 0")
  case True
  then show ?thesis by (simp add: round_f64_def)
next
  case False
  assume "0 \<le> x"
  have p: "(0::rat) < power_int 2 (ilog2 x - 52)" by simp
  then have "of_int 0 \<le> x / power_int 2 (ilog2 x - 52)" using \<open>0 \<le> x\<close> by simp
  then have "0 \<le> round_half_even (x / power_int 2 (ilog2 x - 52))" by (rule rhe_ge)
  then show ?thesis using False p by (simp add: round_f64_def Let_def)
qed

section \<open>The counter\<close>

lemma counters_exact:
  assumes "\<bar>sint (Unix t)\<bar> < 2 ^ 53" and "Period opts \<noteq> 0"
  shows "ValidateCustom_counter pf t opts = word_of_int (sint (Unix t) div uint (Period opts))
       \<and> (0 \<le> sint (Unix t) \<longrightarrow>
            GenerateCodeCustom_counter pf t opts = word_of_int (sint (Unix t) div uint (Period opts)))"
proof -
  define a where "a = sint (Unix t)"
  define p where "p = uint (Period opts)"
  have "uint (Period opts) \<noteq> 0" using assms(2) by (simp add: uint_0_iff)
  moreover have "0 \<le> uint (Period opts)" by simp
  ultimately have p1: "1 \<le> p" unfolding p_def by linarith
  have a53: "\<bar>a\<bar> < 2 ^ 53" using assms(1) by (simp add: a_def)
  have fq: "floor_quotient t opts = of_int (a div p)"
    using floor_quotient_exact[OF assms] by (simp add: a_def p_def)
  have pos: "0 \<le> a \<Longrightarrow> 0 \<le> a div p \<and> a div p \<le> a"
    using p1 zdiv_mono2[of a 1 p] by (simp add: pos_imp_zdiv_nonneg_iff)
  have neg: "a < 0 \<Longrightarrow> a \<le> a div p \<and> a div p < 0"
    using p1 zdiv_mono2_neg[of a 1 p] by (simp add: div_neg_pos_less0)
  have lo: "- (2 ^ 63) \<le> a div p" using pos neg a53 by (cases "0 \<le> a") auto
  have hi: "a div p < 2 ^ 63" using pos neg a53 by (cases "0 \<le> a") auto
  have v: "ValidateCustom_counter pf t opts = word_of_int (a div p)"
    using lo hi by (simp add: ValidateCustom_counter_def int64_of_float64_def fq trunc_of_int)
  have g: "GenerateCodeCustom_counter pf t opts = word_of_int (a div p)" if "0 \<le> a"
  proof -
    have "0 \<le> a div p" "a div p < 2 ^ 64" using pos[OF that] a53 by auto
    then show ?thesis
      by (simp add: GenerateCodeCustom_counter_def uint64_of_float64_def fq trunc_of_int)
  qed
  show ?thesis using v g by (simp add: a_def p_def)
qed

lemma ValidateCustom_counter_exact:
  assumes "\<bar>sint (Unix t)\<bar> < 2 ^ 53" and "Period opts \<noteq> 0"
  shows "ValidateCustom_counter pf t opts = word_of_int (sint (Unix t) div uint (Period opts))"
  using counters_exact[OF assms] by simp

lemma floor_quotient_nonneg: "0 \<le> sint (Unix t) \<Longrightarrow> 0 \<le> floor_quotient t opts"
proof -
  assume a: "0 \<le> sint (Unix t)"
  have x: "0 \<le> float64_of_int64 (Unix t)"
    unfolding float64_of_int64_def by (rule round_f64_nonneg) (simp only: of_int_0_le_iff a)
  have "0 \<le> uint (Period opts)" by simp
  then have y: "0 \<le> float64_of_uint (Period opts)"
    unfolding float64_of_uint_def by (intro round_f64_nonneg) (simp only: of_int_0_le_iff)
  have "0 \<le> float64_div (float64_of_int64 (Unix t)) (float64_of_uint (Period opts))"
    using x y by (simp add: float64_div_def round_f64_nonneg)
  then show ?thesis by (simp add: floor_quotient_def math_Floor_def)
qed

lemma counters_agree:
  assumes "0 \<le> sint (Unix t)" and "floor_quotient t opts < 2 ^ 63"
  shows "GenerateCodeCustom_counter pf t opts = ValidateCustom_counter pf t opts"
proof -
  obtain n where n: "floor_quotient t opts = of_int n"
    by (simp add: floor_quotient_def math_Floor_def)
  have "0 \<le> n" using floor_quotient_nonneg[OF assms(1), of opts] n by simp
  moreover have "n < 2 ^ 63"
  proof -
    have "(of_int n :: rat) < of_int (2 ^ 63)" using assms(2) n by simp
    then show ?thesis by (simp only: of_int_less_iff)
  qed
  ultimately show ?thesis
    by (simp add: GenerateCodeCustom_counter_def ValidateCustom_counter_def
        uint64_of_float64_def int64_of_float64_def n trunc_of_int)
qed

text \<open>
  Claim C3 (corrected). As stated, for every time and every positive period, the claim fails:
  the quotient is computed on doubles, and a time of \<open>2\<^sup>5\<^sup>3 + 1\<close> seconds is not a double, so
  with a period of one second both functions use the counter \<open>2\<^sup>5\<^sup>3\<close>; and before the epoch
  \<^verbatim>\<open>GenerateCodeCustom\<close> converts a negative double to \<^verbatim>\<open>uint64\<close>, whose result the language
  leaves to the implementation (a saturating one gives 0 at the second before the epoch).
\<close>

theorem counter_is_floor_counterexample:
  "ValidateCustom_counter saturating (Time 9007199254740993) (resolve [WithPeriod 1])
     \<noteq> word_of_int (9007199254740993 div 1)
   \<and> GenerateCodeCustom_counter saturating (Time 9007199254740993) (resolve [WithPeriod 1])
     \<noteq> word_of_int (9007199254740993 div 1)
   \<and> GenerateCodeCustom_counter saturating (Time (- 1)) (resolve [WithPeriod 30])
     \<noteq> word_of_int (- 1 div 30)"
  by code_simp

text \<open>
  Claim C3 as amended: whenever the Unix time \<open>t\<close> is below \<open>2\<^sup>5\<^sup>3\<close> in magnitude and the
  period \<open>p\<close> is not zero, the counter of \<^verbatim>\<open>ValidateCustom\<close> is \<open>\<lfloor>t / p\<rfloor>\<close> as a 64-bit word
  (a negative floor wraps modulo \<open>2\<^sup>6\<^sup>4\<close>), on every implementation, and from the epoch on
  (\<open>t \<ge> 0\<close>) the counter of \<^verbatim>\<open>GenerateCodeCustom\<close> is the same number. Both are values of
  total functions of the time and the options: there is no error and no state.
\<close>

theorem counter_is_floor_in_double_range:
  assumes "\<bar>sint (Unix t)\<bar> < 2 ^ 53" and "Period opts \<noteq> 0"
  shows "ValidateCustom_counter pf t opts = word_of_int (sint (Unix t) div uint (Period opts))
       \<and> (0 \<le> sint (Unix t) \<longrightarrow>
            GenerateCodeCustom_counter pf t opts = word_of_int (sint (Unix t) div uint (Period opts)))"
  by (rule counters_exact[OF assms])

theorem counter_is_floor_in_double_range_witness:
  "\<bar>sint (Unix (Time (- 61)))\<bar> < 2 ^ 53 \<and> Period (resolve [WithPeriod 30]) \<noteq> 0
   \<and> ValidateCustom_counter saturating (Time (- 61)) (resolve [WithPeriod 30]) = word_of_int (- 3)
   \<and> \<bar>sint (Unix (Time 59))\<bar> < 2 ^ 53 \<and> 0 \<le> sint (Unix (Time 59))
   \<and> GenerateCodeCustom_counter saturating (Time 59) (resolve [WithPeriod 30]) = 1"
proof -
  have p: "Period (resolve [WithPeriod 30]) = 30"
    by (simp add: resolve_def defaultOpts_def new_ValidateOpts_def WithPeriod_def DigitsSix_def)
  have a: "\<bar>sint (Unix (Time (- 61)))\<bar> < 2 ^ 53" by simp
  have b: "\<bar>sint (Unix (Time 59))\<bar> < 2 ^ 53" by simp
  have nz: "Period (resolve [WithPeriod 30]) \<noteq> 0" by (simp add: p)
  show ?thesis
    using counter_is_floor_in_double_range[OF a nz, of saturating]
      counter_is_floor_in_double_range[OF b nz, of saturating] a b
    by (simp add: p)
qed

section \<open>The options\<close>

lemma resolve_Period: "Period (resolve vo) \<noteq> 0"
  by (simp add: resolve_def defaultOpts_def Let_def)

lemma resolve_example:
  "resolve [WithPeriod 30, WithSkew 1] = \<lparr>Period = 30, Skew = 1, Digits = 6, Algorithm = AlgorithmSHA1\<rparr>"
  by (simp add: resolve_def defaultOpts_def new_ValidateOpts_def WithPeriod_def WithSkew_def DigitsSix_def)

text \<open>
  Claim C4 (confirmed). Both \<^verbatim>\<open>GenerateCodeCustom\<close> and \<^verbatim>\<open>ValidateCustom\<close> work with
  \<open>resolve validateOpts\<close>: the option functions applied to a zero record, then \<^verbatim>\<open>defaultOpts\<close>.
  A period left at zero becomes 30, a skew left at zero becomes 30 as well, a digit count left at
  zero becomes 6, and the algorithm is the one the option functions left, which for a record
  nobody has touched is SHA1. With no option at all the record is \<open>(30, 30, 6, SHA1)\<close>.
\<close>

theorem defaultOpts_fills_zero_fields:
  "Period (resolve vo) =
     (if Period (apply_opts vo new_ValidateOpts) = 0 then 30 else Period (apply_opts vo new_ValidateOpts))
   \<and> Skew (resolve vo) =
     (if Skew (apply_opts vo new_ValidateOpts) = 0 then 30 else Skew (apply_opts vo new_ValidateOpts))
   \<and> ValidateOpts.Digits (resolve vo) =
     (if ValidateOpts.Digits (apply_opts vo new_ValidateOpts) = 0 then 6
      else ValidateOpts.Digits (apply_opts vo new_ValidateOpts))
   \<and> ValidateOpts.Algorithm (resolve vo) = ValidateOpts.Algorithm (apply_opts vo new_ValidateOpts)
   \<and> resolve [] = \<lparr>Period = 30, Skew = 30, Digits = 6, Algorithm = AlgorithmSHA1\<rparr>"
  by (simp add: resolve_def defaultOpts_def new_ValidateOpts_def DigitsSix_def Let_def)

theorem defaultOpts_fills_zero_fields_witness:
  "resolve [WithSkew 0, WithDigits DigitsEight]
     = \<lparr>Period = 30, Skew = 30, Digits = 8, Algorithm = AlgorithmSHA1\<rparr>"
proof -
  have a: "apply_opts [WithSkew 0, WithDigits DigitsEight] new_ValidateOpts
      = \<lparr>Period = 0, Skew = 0, Digits = 8, Algorithm = AlgorithmSHA1\<rparr>"
    by (simp add: new_ValidateOpts_def WithSkew_def WithDigits_def DigitsEight_def)
  show ?thesis
    using defaultOpts_fills_zero_fields[of "[WithSkew 0, WithDigits DigitsEight]", unfolded a]
    by (cases "resolve [WithSkew 0, WithDigits DigitsEight]") simp
qed

section \<open>The window of counters\<close>

lemma sint_succ:
  assumes "sint (i :: 64 word) < 2 ^ 63 - 1"
  shows "sint (i + 1) = sint i + 1"
proof -
  have "- (2 ^ 63) \<le> sint i" using sint_ge[of i] by simp
  then show ?thesis using assms
    by (simp add: sint_word_ariths signed_take_bit_int_eq_self)
qed

lemma window_loop_run:
  assumes "sint bound < 2 ^ 63 - 1"
  shows "window_loop c bound i acc =
    Some (acc @ concat (map (\<lambda>j. [c + word_of_int j, c - word_of_int j]) [sint i..sint bound]))"
  using assms
proof (induction "nat (sint bound + 1 - sint i)" arbitrary: i acc)
  case 0
  then have "\<not> i \<le>s bound" by (simp add: word_sle_eq)
  moreover have "[sint i..sint bound] = []" using 0 by simp
  ultimately show ?case by (simp add: window_loop.simps)
next
  case (Suc n)
  then have le: "i \<le>s bound" by (simp add: word_sle_eq)
  then have "sint i < 2 ^ 63 - 1" using Suc.prems by (simp add: word_sle_eq)
  then have s: "sint (i + 1) = sint i + 1" by (rule sint_succ)
  have "n = nat (sint bound + 1 - sint (i + 1))" using Suc.hyps(2) s by simp
  from Suc.hyps(1)[OF this Suc.prems]
  have "window_loop c bound (i + 1) (acc @ [c + i, c - i]) =
    Some ((acc @ [c + i, c - i]) @ concat (map (\<lambda>j. [c + word_of_int j, c - word_of_int j]) [sint i + 1..sint bound]))"
    by (simp add: s)
  moreover have "[sint i..sint bound] = sint i # [sint i + 1..sint bound]"
    using le by (simp add: word_sle_eq upto_rec1)
  ultimately show ?case using le by (subst window_loop.simps) simp
qed

lemma window_returns:
  assumes "sint skew < 2 ^ 63 - 1"
  shows "window c skew = Some (c # concat (map (\<lambda>j. [c + word_of_int j, c - word_of_int j]) [1..sint skew]))"
  using window_loop_run[OF assms, of c 1 "[c]"] by (simp add: window_def)

text \<open>
  With a skew of \<open>2\<^sup>6\<^sup>3 - 1\<close> the loop that builds the window does not end: no call of
  \<^verbatim>\<open>ValidateCustom\<close> with that skew returns.
\<close>

lemma window_loop_returns_bound:
  assumes "window_loop c b i acc = Some y"
  shows "b \<noteq> word_of_int (2 ^ 63 - 1)"
proof (rule window_loop.raw_induct[OF _ assms, where P = "\<lambda>c b i acc y. b \<noteq> word_of_int (2 ^ 63 - 1)"])
  fix wl :: "64 word \<Rightarrow> 64 word \<Rightarrow> 64 word \<Rightarrow> 64 word list \<Rightarrow> 64 word list option"
    and counter bound i :: "64 word" and counters y :: "64 word list"
  assume IH: "\<And>c b i acc y. wl c b i acc = Some y \<Longrightarrow> b \<noteq> word_of_int (2 ^ 63 - 1)"
    and body: "(if i \<le>s bound then wl counter bound (i + 1) (counters @ [counter + i, counter - i])
                else Some counters) = Some y"
  show "bound \<noteq> word_of_int (2 ^ 63 - 1)"
  proof
    assume b: "bound = word_of_int (2 ^ 63 - 1)"
    have "sint i \<le> 2 ^ 63 - 1" using sint_lt[of i] by simp
    then have "i \<le>s bound" by (simp add: word_sle_eq b)
    with body have "wl counter bound (i + 1) (counters @ [counter + i, counter - i]) = Some y" by simp
    from IH[OF this] b show False by simp
  qed
qed

lemma window_never_returns: "window c (word_of_int (2 ^ 63 - 1)) = None"
proof (cases "window c (word_of_int (2 ^ 63 - 1))")
  case None
  then show ?thesis .
next
  case (Some y)
  then have "window_loop c (word_of_int (2 ^ 63 - 1)) 1 [c] = Some y" by (simp only: window_def)
  from window_loop_returns_bound[OF this] show ?thesis by simp
qed

text \<open>
  Below that skew the loop of the source builds the window of the spec. (From \<open>2\<^sup>6\<^sup>3\<close> on the
  bound \<^verbatim>\<open>int(opts.Skew)\<close> is negative and the window is the base counter alone.)
\<close>

lemma upto_as_upt: "map f [1..int n] = map (\<lambda>i. f (int i)) [1..<Suc n]"
proof (induction n)
  case 0
  then show ?case by simp
next
  case (Suc n)
  have "[1..int (Suc n)] = [1..int n] @ [int (Suc n)]" by (simp add: upto_rec2)
  moreover have "[1..<Suc (Suc n)] = [1..<Suc n] @ [Suc n]" by (rule upt_Suc_append) simp
  ultimately show ?case using Suc by (simp only: map_append list.map)
qed

lemma window_is_spec_window:
  assumes "uint skew < 2 ^ 63 - 1"
  shows "window c skew = Some (spec_window c (unat skew))"
proof -
  have u: "uint skew < 2 ^ 63" using assms by simp
  have "sint skew = signed_take_bit 63 (uint skew)" by (simp add: sint_uint)
  also have "\<dots> = uint skew"
  proof (rule signed_take_bit_int_eq_self)
    have "- (2 ^ 63) \<le> (0::int)" by simp
    also have "(0::int) \<le> uint skew" by simp
    finally show "- (2 ^ 63) \<le> uint skew" .
    show "uint skew < 2 ^ 63" by (rule u)
  qed
  finally have s: "sint skew = uint skew" .
  have lt: "sint skew < 2 ^ 63 - 1" using assms s by simp
  have i: "sint skew = int (unat skew)" using s by simp
  show ?thesis
    by (simp only: window_returns[OF lt] i spec_window_def upto_as_upt) simp
qed

lemma length_spec_window: "length (spec_window c s) = 2 * s + 1"
  by (induction s) (simp_all add: spec_window_def)

lemma window_first:
  assumes "sint skew \<noteq> 2 ^ 63 - 1"
  shows "\<exists>rest. window c skew = Some (c # rest)"
proof -
  have "sint skew \<le> 2 ^ 63 - 1" using sint_lt[of skew] by simp
  with assms have "sint skew < 2 ^ 63 - 1" by linarith
  from window_returns[OF this, of c] show ?thesis by simp
qed

lemma length_concat_pairs: "length (concat (map (\<lambda>j. [f j, g j]) xs)) = 2 * length xs"
  by (induction xs) simp_all

lemma nth_concat_pairs:
  "i < length xs \<Longrightarrow> concat (map (\<lambda>j. [f j, g j]) xs) ! (2 * i + 1) = g (xs ! i)"
proof (induction xs arbitrary: i)
  case Nil
  then show ?case by simp
next
  case (Cons x xs)
  show ?case
  proof (cases i)
    case 0
    then show ?thesis by simp
  next
    case (Suc n)
    then have "n < length xs" using Cons.prems by simp
    from Cons.IH[OF this] show ?thesis using Suc by simp
  qed
qed

lemma window_nth_minus:
  fixes i :: nat
  assumes w: "window c skew = Some cs" and i1: "1 \<le> i" and ik: "int i \<le> sint skew"
  shows "2 * i < length cs \<and> cs ! (2 * i) = c - of_nat i"
proof -
  have ne: "skew \<noteq> word_of_int (2 ^ 63 - 1)"
    using w window_loop_returns_bound[of c skew 1 "[c]" cs] by (simp add: window_def)
  have "sint skew \<noteq> 2 ^ 63 - 1"
  proof
    assume a: "sint skew = 2 ^ 63 - 1"
    have "skew = word_of_int (sint skew)" by simp
    with a ne show False by simp
  qed
  moreover have "sint skew \<le> 2 ^ 63 - 1" using sint_lt[of skew] by simp
  ultimately have lt: "sint skew < 2 ^ 63 - 1" by linarith
  define L where "L = concat (map (\<lambda>j. [c + word_of_int j, c - word_of_int j]) [1..sint skew])"
  have cs: "cs = c # L" using w window_returns[OF lt, of c] by (simp add: L_def)
  obtain n where n: "i = Suc n" using i1 by (cases i) auto
  have il: "n < length [1..sint skew]" using ik n by simp
  have "[1..sint skew] ! n = 1 + int n"
    using ik n by (intro nth_upto) simp
  then have nth: "[1..sint skew] ! n = int i" using n by simp
  have "L ! (2 * n + 1) = c - word_of_int ([1..sint skew] ! n)"
    unfolding L_def by (rule nth_concat_pairs[OF il])
  then have a: "L ! (2 * n + 1) = c - of_nat i" by (simp add: nth)
  have "cs ! (2 * i) = L ! (2 * n + 1)" by (simp add: cs n)
  moreover have "length L = 2 * nat (sint skew)" by (simp add: L_def length_concat_pairs)
  ultimately show ?thesis using a cs n ik by simp
qed

lemma uint_minus_wraps:
  fixes base :: "64 word" and i :: nat
  assumes neg: "sint base - int i < 0" and ik: "int i < 2 ^ 63"
  shows "uint (base - of_nat i) = 2 ^ 64 + (sint base - int i)"
proof -
  define k where "k = sint base - int i"
  have lo: "- (2 ^ 63) \<le> sint base" using sint_ge[of base] by simp
  have kl: "- (2 ^ 64) \<le> k" using lo ik by (simp add: k_def)
  have kn: "k < 0" using neg by (simp add: k_def)
  have "base - of_nat i = word_of_int (sint base) - word_of_int (int i)" by simp
  also have "\<dots> = word_of_int k" by (simp only: k_def of_int_diff)
  finally have "uint (base - of_nat i) = k mod 2 ^ 64"
    by (simp add: uint_word_of_int take_bit_eq_mod)
  also have "k mod 2 ^ 64 = (k + 2 ^ 64) mod 2 ^ 64" by simp
  also have "\<dots> = k + 2 ^ 64" using kl kn by (intro mod_pos_pos_trivial) simp_all
  finally show ?thesis by (simp add: k_def)
qed

section \<open>The loop over the candidates\<close>

lemma validate_loop_no_match:
  "\<forall>c\<in>set cs. check c = (False, None) \<Longrightarrow> validate_loop check cs calls = ((False, None), calls @ cs)"
  by (induction cs arbitrary: calls) simp_all

lemma validate_loop_match:
  "k < length cs \<Longrightarrow> \<forall>j<k. check (cs ! j) = (False, None) \<Longrightarrow> check (cs ! k) = (True, None)
   \<Longrightarrow> validate_loop check cs calls = ((True, None), calls @ take (Suc k) cs)"
proof (induction cs arbitrary: k calls)
  case Nil
  then show ?case by simp
next
  case (Cons c cs)
  show ?case
  proof (cases k)
    case 0
    with Cons.prems show ?thesis by simp
  next
    case (Suc n)
    from Cons.prems Suc have c: "check c = (False, None)" by auto
    have n: "n < length cs" using Cons.prems Suc by simp
    have f: "\<forall>j<n. check (cs ! j) = (False, None)" using Cons.prems(2) Suc by auto
    have m: "check (cs ! n) = (True, None)" using Cons.prems(3) Suc by simp
    show ?thesis using Cons.IH[OF n f m, of "calls @ [c]"] c Suc by simp
  qed
qed

lemma validate_loop_error:
  "k < length cs \<Longrightarrow> \<forall>j<k. check (cs ! j) = (False, None) \<Longrightarrow> snd (check (cs ! k)) = Some err
   \<Longrightarrow> validate_loop check cs calls = ((False, Some err), calls @ take (Suc k) cs)"
proof (induction cs arbitrary: k calls)
  case Nil
  then show ?case by simp
next
  case (Cons c cs)
  show ?case
  proof (cases k)
    case 0
    with Cons.prems show ?thesis by (cases "check c") simp
  next
    case (Suc n)
    from Cons.prems Suc have c: "check c = (False, None)" by auto
    have n: "n < length cs" using Cons.prems Suc by simp
    have f: "\<forall>j<n. check (cs ! j) = (False, None)" using Cons.prems(2) Suc by auto
    have m: "snd (check (cs ! n)) = Some err" using Cons.prems(3) Suc by simp
    show ?thesis using Cons.IH[OF n f m, of "calls @ [c]"] c Suc by simp
  qed
qed

lemma validate_loop_extends:
  "\<exists>rest. snd (validate_loop check cs calls) = calls @ rest"
proof (induction cs arbitrary: calls)
  case Nil
  then show ?case by simp
next
  case (Cons c cs)
  obtain rv e where p: "check c = (rv, e)" by (cases "check c")
  from Cons[of "calls @ [c]"] obtain rest
    where "snd (validate_loop check cs (calls @ [c])) = calls @ c # rest" by auto
  then show ?case using p by (cases e; cases rv) simp_all
qed

lemma validate_loop_reaches:
  "k < length cs \<Longrightarrow> \<forall>j<k. check (cs ! j) = (False, None)
   \<Longrightarrow> \<exists>rest. snd (validate_loop check cs calls) = calls @ take (Suc k) cs @ rest"
proof (induction cs arbitrary: k calls)
  case Nil
  then show ?case by simp
next
  case (Cons c cs)
  show ?case
  proof (cases k)
    case 0
    obtain rv e where p: "check c = (rv, e)" by (cases "check c")
    from validate_loop_extends[of check cs "calls @ [c]"] obtain rest
      where "snd (validate_loop check cs (calls @ [c])) = calls @ c # rest" by auto
    then show ?thesis using p 0 by (cases e; cases rv) simp_all
  next
    case (Suc n)
    from Cons.prems Suc have c: "check c = (False, None)" by auto
    have n: "n < length cs" using Cons.prems Suc by simp
    have f: "\<forall>j<n. check (cs ! j) = (False, None)" using Cons.prems(2) Suc by auto
    show ?thesis using Cons.IH[OF n f, of "calls @ [c]"] c Suc by simp
  qed
qed

lemma ValidateCustom_calls_window:
  assumes "window (ValidateCustom_counter pf t (resolve vo)) (Skew (resolve vo)) = Some cs"
  shows "ValidateCustom_calls pf hv passcode secret t vo =
    Some (validate_loop (\<lambda>c. hv passcode c secret (hotp_opts (resolve vo))) cs [])"
  using assms by (simp add: ValidateCustom_calls_def Let_def)

section \<open>Validation\<close>

text \<open>
  Claim C1 (corrected). As stated, for every time and every skew, the claim fails twice. The
  base counter is computed on doubles: at \<open>2\<^sup>5\<^sup>4 + 2\<close> seconds with a period of one second the
  base is \<open>2\<^sup>5\<^sup>4\<close>, and with a skew of 1 the floor \<open>2\<^sup>5\<^sup>4 + 2\<close> is not among the three candidates,
  so a passcode valid at the floor is rejected. And the bound of the loop is the skew read as a
  signed number: with a skew of \<open>2\<^sup>6\<^sup>3\<close> there is one candidate, the base, and a passcode valid
  at \<open>base + 1\<close> is rejected after a single call.
\<close>

theorem ValidateCustom_window_order_counterexample:
  "ValidateCustom_calls saturating (hotp_accepting 18014398509481986) [] []
       (Time 18014398509481986) [WithPeriod 1, WithSkew 1]
     = Some ((False, None), [18014398509481984, 18014398509481985, 18014398509481983])
   \<and> ValidateCustom_calls saturating (hotp_accepting 2) [] []
       (Time 59) [WithPeriod 30, WithSkew 9223372036854775808]
     = Some ((False, None), [1])"
  by code_simp

text \<open>
  Claim C1 as amended: for every passcode and secret, every time \<open>t\<close> with \<open>\<bar>Unix t\<bar> < 2\<^sup>5\<^sup>3\<close>
  and resolved options with period \<open>p\<close> and skew \<open>s < 2\<^sup>6\<^sup>3 - 1\<close>, the candidates of
  \<^verbatim>\<open>ValidateCustom\<close> are \<open>cs = base, base + 1, base - 1, \<dots>, base + s, base - s\<close> with
  \<open>base = \<lfloor>Unix t / p\<rfloor>\<close> in 64-bit arithmetic, \<open>2 s + 1\<close> of them. If the call on candidate
  \<open>k\<close> is the first positive match (the calls before it returned no match and no error), the
  result is \<open>(true, nil)\<close> and the calls made are exactly the first \<open>k + 1\<close> candidates in that
  order. If every candidate returns no match and no error, the result is \<open>(false, nil)\<close> after
  a call on every candidate, in that order.
\<close>

theorem ValidateCustom_window_order:
  fixes pf hv passcode secret t vo k
  defines "opts \<equiv> resolve vo"
  defines "cs \<equiv> spec_window (word_of_int (sint (Unix t) div uint (Period opts))) (unat (Skew opts))"
  defines "check \<equiv> \<lambda>c. hv passcode c secret (hotp_opts opts)"
  assumes t: "\<bar>sint (Unix t)\<bar> < 2 ^ 53" and s: "uint (Skew opts) < 2 ^ 63 - 1"
  shows "length cs = 2 * unat (Skew opts) + 1
       \<and> (k < length cs \<and> (\<forall>j<k. check (cs ! j) = (False, None)) \<and> check (cs ! k) = (True, None)
            \<longrightarrow> ValidateCustom_calls pf hv passcode secret t vo = Some ((True, None), take (Suc k) cs))
       \<and> ((\<forall>c\<in>set cs. check c = (False, None))
            \<longrightarrow> ValidateCustom_calls pf hv passcode secret t vo = Some ((False, None), cs))"
proof -
  have c: "ValidateCustom_counter pf t opts = word_of_int (sint (Unix t) div uint (Period opts))"
    unfolding opts_def by (rule ValidateCustom_counter_exact[OF t resolve_Period])
  have w: "window (ValidateCustom_counter pf t (resolve vo)) (Skew (resolve vo)) = Some cs"
    using window_is_spec_window[OF s] c by (simp add: cs_def opts_def)
  have run: "ValidateCustom_calls pf hv passcode secret t vo = Some (validate_loop check cs [])"
    using ValidateCustom_calls_window[OF w] by (simp add: check_def opts_def)
  show ?thesis
    by (auto simp: run cs_def length_spec_window validate_loop_no_match validate_loop_match)
qed

theorem ValidateCustom_window_order_witness:
  "\<bar>sint (Unix (Time 59))\<bar> < 2 ^ 53
   \<and> uint (Skew (resolve [WithPeriod 30, WithSkew 1])) < 2 ^ 63 - 1
   \<and> ValidateCustom_calls saturating (hotp_accepting 0) [] [] (Time 59) [WithPeriod 30, WithSkew 1]
       = Some ((True, None), [1, 2, 0])
   \<and> ValidateCustom_calls saturating (hotp_accepting 7) [] [] (Time 59) [WithPeriod 30, WithSkew 1]
       = Some ((False, None), [1, 2, 0])"
proof -
  have t: "\<bar>sint (Unix (Time 59))\<bar> < 2 ^ 53" by simp
  have s: "uint (Skew (resolve [WithPeriod 30, WithSkew 1])) < 2 ^ 63 - 1"
    by (simp add: resolve_example)
  have cs: "spec_window (word_of_int (sint (Unix (Time 59)) div uint (Period (resolve [WithPeriod 30, WithSkew 1]))))
              (unat (Skew (resolve [WithPeriod 30, WithSkew 1]))) = [1, 2, 0]"
    by (simp add: resolve_example spec_window_def)
  have "ValidateCustom_calls saturating (hotp_accepting 0) [] [] (Time 59) [WithPeriod 30, WithSkew 1]
       = Some ((True, None), [1, 2, 0])"
    using ValidateCustom_window_order[OF t s, where k = 2 and pf = saturating
        and hv = "hotp_accepting 0" and passcode = "[]" and secret = "[]", unfolded cs]
    by (simp add: hotp_accepting_def less_2_cases_iff resolve_example)
  moreover have "ValidateCustom_calls saturating (hotp_accepting 7) [] [] (Time 59) [WithPeriod 30, WithSkew 1]
       = Some ((False, None), [1, 2, 0])"
    using ValidateCustom_window_order[OF t s, where k = 0 and pf = saturating
        and hv = "hotp_accepting 7" and passcode = "[]" and secret = "[]", unfolded cs]
    by (simp add: hotp_accepting_def)
  ultimately show ?thesis using t s by simp
qed

text \<open>
  Claim C2 (confirmed). Let \<open>cs\<close> be the window \<^verbatim>\<open>ValidateCustom\<close> has built (it builds one for
  every skew but \<open>2\<^sup>6\<^sup>3 - 1\<close>, with which no HOTP call is ever made). If the calls on the first
  \<open>k\<close> candidates returned no match and no error and the call on the next candidate returns an
  error, then \<^verbatim>\<open>ValidateCustom\<close> returns \<open>(false, that error)\<close>, and the calls it made are the
  first \<open>k + 1\<close> candidates: no later candidate is tried, whatever the primitive would have
  returned for it.
\<close>

theorem ValidateCustom_error_aborts:
  fixes pf hv passcode secret t vo k cs err
  defines "opts \<equiv> resolve vo"
  defines "check \<equiv> \<lambda>c. hv passcode c secret (hotp_opts opts)"
  assumes "window (ValidateCustom_counter pf t opts) (Skew opts) = Some cs"
    and "k < length cs"
    and "\<forall>j<k. check (cs ! j) = (False, None)"
    and "snd (check (cs ! k)) = Some err"
  shows "ValidateCustom_calls pf hv passcode secret t vo = Some ((False, Some err), take (Suc k) cs)
       \<and> ValidateCustom pf hv passcode secret t vo = Some (False, Some err)"
proof -
  have run: "ValidateCustom_calls pf hv passcode secret t vo = Some (validate_loop check cs [])"
    using ValidateCustom_calls_window[of pf t vo cs] assms(3) by (simp add: check_def opts_def)
  show ?thesis
    using validate_loop_error[OF assms(4,5,6), of "[]"] by (simp add: run ValidateCustom_def)
qed

theorem ValidateCustom_error_aborts_witness:
  "window (ValidateCustom_counter saturating (Time 59) (resolve [WithPeriod 30, WithSkew 1]))
       (Skew (resolve [WithPeriod 30, WithSkew 1])) = Some [1, 2, 0]
   \<and> ValidateCustom_calls saturating (hotp_failing 2 (ExternalError ''decoding of secret failed'') 0) [] []
       (Time 59) [WithPeriod 30, WithSkew 1]
     = Some ((False, Some (ExternalError ''decoding of secret failed'')), [1, 2])
   \<and> ValidateCustom saturating (hotp_failing 2 (ExternalError ''decoding of secret failed'') 0) [] []
       (Time 59) [WithPeriod 30, WithSkew 1]
     = Some (False, Some (ExternalError ''decoding of secret failed''))"
proof -
  have w: "window (ValidateCustom_counter saturating (Time 59) (resolve [WithPeriod 30, WithSkew 1]))
       (Skew (resolve [WithPeriod 30, WithSkew 1])) = Some [1, 2, 0]"
    by code_simp
  have k: "1 < length [1, 2, 0 :: 64 word]" by simp
  have f: "\<forall>j<1. hotp_failing 2 (ExternalError ''decoding of secret failed'') 0 [] ([1, 2, 0] ! j) []
             (hotp_opts (resolve [WithPeriod 30, WithSkew 1])) = (False, None)"
    by (simp add: hotp_failing_def)
  have e: "snd (hotp_failing 2 (ExternalError ''decoding of secret failed'') 0 [] ([1, 2, 0] ! 1) []
             (hotp_opts (resolve [WithPeriod 30, WithSkew 1])))
           = Some (ExternalError ''decoding of secret failed'')"
    by (simp add: hotp_failing_def)
  show ?thesis
    using ValidateCustom_error_aborts[where hv = "hotp_failing 2 (ExternalError ''decoding of secret failed'') 0"
        and passcode = "[]" and secret = "[]" and k = 1 and cs = "[1, 2, 0]" and pf = saturating
        and t = "Time 59" and vo = "[WithPeriod 30, WithSkew 1]"
        and err = "ExternalError ''decoding of secret failed''", OF w k f e] w
    by simp
qed

text \<open>
  Claim C10 (confirmed). Let \<open>base\<close> be the signed counter of \<^verbatim>\<open>ValidateCustom\<close> and \<open>cs\<close> the
  window it has built. For \<open>i\<close> from 1 to the bound of the loop with \<open>base - i\<close> negative, the
  candidate at position \<open>2 i\<close> is \<open>base - i\<close> in 64-bit arithmetic, the unsigned counter
  \<open>2\<^sup>6\<^sup>4 + (base - i)\<close>; it is in the window, and when the calls before it return no match and
  no error the HOTP primitive is called on it. For a time below \<open>2\<^sup>5\<^sup>3\<close> in magnitude \<open>base\<close> is
  \<open>\<lfloor>Unix t / p\<rfloor>\<close>, so this is the case \<open>\<lfloor>Unix t / p\<rfloor> < i\<close>.
\<close>

theorem negative_candidate_wraps:
  fixes pf hv passcode secret t vo cs and i :: nat
  defines "opts \<equiv> resolve vo"
  defines "base \<equiv> ValidateCustom_counter pf t opts"
  defines "check \<equiv> \<lambda>c. hv passcode c secret (hotp_opts opts)"
  assumes w: "window base (Skew opts) = Some cs"
    and i1: "1 \<le> i" and ik: "int i \<le> sint (Skew opts)"
    and neg: "sint base - int i < 0"
  shows "2 * i < length cs
       \<and> cs ! (2 * i) = base - of_nat i
       \<and> uint (cs ! (2 * i)) = 2 ^ 64 + (sint base - int i)
       \<and> ((\<forall>j<2 * i. check (cs ! j) = (False, None)) \<longrightarrow>
            (\<exists>res calls. ValidateCustom_calls pf hv passcode secret t vo = Some (res, calls)
               \<and> 2 * i < length calls \<and> calls ! (2 * i) = cs ! (2 * i)))
       \<and> (\<bar>sint (Unix t)\<bar> < 2 ^ 53 \<longrightarrow> sint base = sint (Unix t) div uint (Period opts))"
proof -
  from window_nth_minus[OF w i1 ik]
  have len: "2 * i < length cs" and nth: "cs ! (2 * i) = base - of_nat i" by simp_all
  have "sint (Skew opts) < 2 ^ 63" using sint_lt[of "Skew opts"] by simp
  then have "int i < 2 ^ 63" using ik by linarith
  from uint_minus_wraps[OF neg this]
  have u: "uint (cs ! (2 * i)) = 2 ^ 64 + (sint base - int i)" by (simp add: nth)
  have run: "ValidateCustom_calls pf hv passcode secret t vo = Some (validate_loop check cs [])"
    using ValidateCustom_calls_window[of pf t vo cs] w by (simp add: check_def opts_def base_def)
  have q: "\<exists>res calls. ValidateCustom_calls pf hv passcode secret t vo = Some (res, calls)
               \<and> 2 * i < length calls \<and> calls ! (2 * i) = cs ! (2 * i)"
    if f: "\<forall>j<2 * i. check (cs ! j) = (False, None)"
  proof -
    from validate_loop_reaches[OF len f, of "[]"] obtain rest
      where r: "snd (validate_loop check cs []) = take (Suc (2 * i)) cs @ rest" by auto
    obtain res calls where p: "validate_loop check cs [] = (res, calls)"
      by (cases "validate_loop check cs []")
    with r have c: "calls = take (Suc (2 * i)) cs @ rest" by simp
    have "2 * i < length calls" using c len by simp
    moreover have "calls ! (2 * i) = cs ! (2 * i)" using c len by (simp add: nth_append)
    ultimately show ?thesis using run p by simp
  qed
  have fl: "sint base = sint (Unix t) div uint (Period opts)" if t: "\<bar>sint (Unix t)\<bar> < 2 ^ 53"
  proof -
    define a where "a = sint (Unix t)"
    define p where "p = uint (Period opts)"
    have "uint (Period opts) \<noteq> 0" using resolve_Period[of vo] by (simp add: uint_0_iff opts_def)
    moreover have "0 \<le> uint (Period opts)" by simp
    ultimately have p1: "1 \<le> p" unfolding p_def by linarith
    have a53: "\<bar>a\<bar> < 2 ^ 53" using t by (simp add: a_def)
    have pos: "0 \<le> a \<Longrightarrow> 0 \<le> a div p \<and> a div p \<le> a"
      using p1 zdiv_mono2[of a 1 p] by (simp add: pos_imp_zdiv_nonneg_iff)
    have ng: "a < 0 \<Longrightarrow> a \<le> a div p \<and> a div p < 0"
      using p1 zdiv_mono2_neg[of a 1 p] by (simp add: div_neg_pos_less0)
    have lo: "- (2 ^ 63) \<le> a div p" using pos ng a53 by (cases "0 \<le> a") auto
    have hi: "a div p < 2 ^ 63" using pos ng a53 by (cases "0 \<le> a") auto
    have "base = word_of_int (a div p)"
      unfolding base_def opts_def a_def p_def
      by (rule ValidateCustom_counter_exact[OF t resolve_Period])
    then have "sint base = signed_take_bit 63 (a div p)" by (simp add: sint_sbintrunc')
    also have "\<dots> = a div p" using lo hi by (rule signed_take_bit_int_eq_self)
    finally show ?thesis by (simp add: a_def p_def)
  qed
  show ?thesis using len nth u q fl by blast
qed

theorem negative_candidate_wraps_witness:
  "window (ValidateCustom_counter saturating (Time 59) (resolve [WithPeriod 30, WithSkew 2]))
       (Skew (resolve [WithPeriod 30, WithSkew 2])) = Some [1, 2, 0, 3, 18446744073709551615]
   \<and> int 2 \<le> sint (Skew (resolve [WithPeriod 30, WithSkew 2]))
   \<and> sint (ValidateCustom_counter saturating (Time 59) (resolve [WithPeriod 30, WithSkew 2])) - int 2 < 0
   \<and> uint ([1, 2, 0, 3, 18446744073709551615 :: 64 word] ! (2 * 2)) = 2 ^ 64 - 1
   \<and> ValidateCustom_calls saturating (hotp_accepting 18446744073709551615) [] [] (Time 59)
         [WithPeriod 30, WithSkew 2]
       = Some ((True, None), [1, 2, 0, 3, 18446744073709551615])"
proof -
  have w: "window (ValidateCustom_counter saturating (Time 59) (resolve [WithPeriod 30, WithSkew 2]))
       (Skew (resolve [WithPeriod 30, WithSkew 2])) = Some [1, 2, 0, 3, 18446744073709551615]"
    by code_simp
  have i1: "1 \<le> (2::nat)" by simp
  have ik: "int 2 \<le> sint (Skew (resolve [WithPeriod 30, WithSkew 2]))" by code_simp
  have c: "sint (ValidateCustom_counter saturating (Time 59) (resolve [WithPeriod 30, WithSkew 2])) = 1"
    by code_simp
  have neg: "sint (ValidateCustom_counter saturating (Time 59) (resolve [WithPeriod 30, WithSkew 2])) - int 2 < 0"
    by (simp add: c)
  have run: "ValidateCustom_calls saturating (hotp_accepting 18446744073709551615) [] [] (Time 59)
         [WithPeriod 30, WithSkew 2]
       = Some ((True, None), [1, 2, 0, 3, 18446744073709551615])"
    by code_simp
  show ?thesis
    using negative_candidate_wraps[where hv = "hotp_accepting 18446744073709551615"
        and passcode = "[]" and secret = "[]" and pf = saturating and t = "Time 59"
        and vo = "[WithPeriod 30, WithSkew 2]" and i = 2
        and cs = "[1, 2, 0, 3, 18446744073709551615]", OF w i1 ik neg] w ik neg run
    by (simp add: c)
qed

text \<open>
  Claim C5 (code bug). With period 30 the counter at Unix time 59 is 1, and a passcode that is
  valid at counter 1 only is accepted at time 59, as the claim says. But an option of skew 0 is
  turned into a skew of 30 by \<^verbatim>\<open>defaultOpts\<close>, although the comment of the field says that
  the default is no skew at all. So at time 90, where the counter is 3, the window reaches from
  \<open>3 - 30\<close> to \<open>3 + 30\<close> and the fifth call, on counter 1, accepts the passcode: the code returns
  \<open>(true, nil)\<close> where the claim, for a skew of 0, says false. (The HOTP primitive is outside
  the source file: which passcode it generates for counter 1 is not settled here.)
\<close>

theorem skew_zero_accepts_old_passcode:
  "GenerateCodeCustom_counter pf (Time 59)
       (resolve [WithPeriod 30, WithSkew 0, WithDigits DigitsSix, WithAlgorithm AlgorithmSHA1]) = 1
   \<and> Skew (resolve [WithPeriod 30, WithSkew 0, WithDigits DigitsSix, WithAlgorithm AlgorithmSHA1]) = 30
   \<and> ValidateCustom_calls pf (hotp_accepting 1) passcode secret (Time 59)
       [WithPeriod 30, WithSkew 0, WithDigits DigitsSix, WithAlgorithm AlgorithmSHA1]
     = Some ((True, None), [1])
   \<and> ValidateCustom_calls pf (hotp_accepting 1) passcode secret (Time 90)
       [WithPeriod 30, WithSkew 0, WithDigits DigitsSix, WithAlgorithm AlgorithmSHA1]
     = Some ((True, None), [3, 4, 2, 5, 1])"
  by code_simp

text \<open>
  Claim C9 (corrected). As stated, for every time and every option set, the claim fails twice.
  Before the epoch \<^verbatim>\<open>GenerateCodeCustom\<close> converts a negative double to \<^verbatim>\<open>uint64\<close>, which the
  language leaves to the implementation, where \<^verbatim>\<open>ValidateCustom\<close> wraps: on a saturating
  implementation the passcode generated at 61 seconds before the epoch is the one of counter 0,
  and validation with a skew of 1 looks at the counters \<open>2\<^sup>6\<^sup>4 - 3\<close>, \<open>2\<^sup>6\<^sup>4 - 2\<close> and \<open>2\<^sup>6\<^sup>4 - 4\<close>. And
  with a skew of \<open>2\<^sup>6\<^sup>3 - 1\<close> generation succeeds and validation does not return.
\<close>

theorem generate_then_validate_counterexample:
  "GenerateCodeCustom saturating hotp_decimal [] (Time (- 61)) [WithPeriod 30, WithSkew 1]
     = (''0'', None)
   \<and> ValidateCustom saturating (hotp_validate_of hotp_decimal) ''0'' [] (Time (- 61))
       [WithPeriod 30, WithSkew 1]
     = Some (False, None)
   \<and> GenerateCodeCustom saturating hotp_decimal [] (Time 59)
       [WithPeriod 30, WithSkew 9223372036854775807]
     = (''1'', None)
   \<and> ValidateCustom saturating (hotp_validate_of hotp_decimal) ''1'' [] (Time 59)
       [WithPeriod 30, WithSkew 9223372036854775807]
     = None"
proof -
  have a: "GenerateCodeCustom saturating hotp_decimal [] (Time (- 61)) [WithPeriod 30, WithSkew 1]
     = (''0'', None)"
    by code_simp
  have b: "ValidateCustom saturating (hotp_validate_of hotp_decimal) ''0'' [] (Time (- 61))
       [WithPeriod 30, WithSkew 1]
     = Some (False, None)"
    by code_simp
  have c: "GenerateCodeCustom saturating hotp_decimal [] (Time 59)
       [WithPeriod 30, WithSkew 9223372036854775807]
     = (''1'', None)"
    by code_simp
  have "Skew (resolve [WithPeriod 30, WithSkew 9223372036854775807]) = word_of_int (2 ^ 63 - 1)"
    by (simp add: resolve_def defaultOpts_def new_ValidateOpts_def WithPeriod_def WithSkew_def
        DigitsSix_def)
  then have d: "ValidateCustom saturating (hotp_validate_of hotp_decimal) ''1'' [] (Time 59)
       [WithPeriod 30, WithSkew 9223372036854775807]
     = None"
    by (simp only: ValidateCustom_def ValidateCustom_calls_def Let_def window_never_returns
        option.case option.map)
  show ?thesis using a b c d by simp
qed

text \<open>
  Claim C9 as amended: for every secret, every option set whose skew is not \<open>2\<^sup>6\<^sup>3 - 1\<close> and
  every time \<open>t\<close> from the epoch on (\<open>Unix t \<ge> 0\<close>) whose counter is below \<open>2\<^sup>6\<^sup>3\<close>, if
  \<^verbatim>\<open>GenerateCodeCustom\<close> succeeds, then \<^verbatim>\<open>ValidateCustom\<close> with the passcode it produced, the
  same secret, the same time and the same options returns \<open>(true, nil)\<close>. The HOTP primitive is
  a parameter: what is assumed of it is that its validation accepts, for a counter, the passcode
  its generation produced for that counter.
\<close>

theorem generate_then_validate:
  assumes gen: "GenerateCodeCustom pf hg secret t vo = (passcode, None)"
    and consistent: "\<forall>c p. hg secret c (hotp_opts (resolve vo)) = (p, None)
                       \<longrightarrow> hv p c secret (hotp_opts (resolve vo)) = (True, None)"
    and epoch: "0 \<le> sint (Unix t)"
    and small: "floor_quotient t (resolve vo) < 2 ^ 63"
    and skew: "sint (Skew (resolve vo)) \<noteq> 2 ^ 63 - 1"
  shows "ValidateCustom pf hv passcode secret t vo = Some (True, None)"
proof -
  define c where "c = ValidateCustom_counter pf t (resolve vo)"
  have g: "GenerateCodeCustom_counter pf t (resolve vo) = c"
    unfolding c_def by (rule counters_agree[OF epoch small])
  obtain p e where h: "hg secret c (hotp_opts (resolve vo)) = (p, e)"
    by (cases "hg secret c (hotp_opts (resolve vo))")
  have "e = None \<and> p = passcode"
    using gen h by (cases e) (simp_all add: GenerateCodeCustom_def Let_def g)
  then have "hv passcode c secret (hotp_opts (resolve vo)) = (True, None)"
    using consistent h by simp
  moreover obtain rest where "window c (Skew (resolve vo)) = Some (c # rest)"
    using window_first[OF skew, of c] by auto
  ultimately show ?thesis
    by (simp add: ValidateCustom_def ValidateCustom_calls_def Let_def c_def[symmetric])
qed

theorem generate_then_validate_witness:
  "GenerateCodeCustom saturating hotp_decimal [] (Time 59) [WithPeriod 30, WithSkew 1] = (''1'', None)
   \<and> 0 \<le> sint (Unix (Time 59))
   \<and> floor_quotient (Time 59) (resolve [WithPeriod 30, WithSkew 1]) < 2 ^ 63
   \<and> sint (Skew (resolve [WithPeriod 30, WithSkew 1])) \<noteq> 2 ^ 63 - 1
   \<and> ValidateCustom saturating (hotp_validate_of hotp_decimal) ''1'' [] (Time 59)
         [WithPeriod 30, WithSkew 1]
       = Some (True, None)"
proof -
  have gen: "GenerateCodeCustom saturating hotp_decimal [] (Time 59) [WithPeriod 30, WithSkew 1]
      = (''1'', None)"
    by code_simp
  have consistent: "\<forall>c p. hotp_decimal [] c (hotp_opts (resolve [WithPeriod 30, WithSkew 1])) = (p, None)
      \<longrightarrow> hotp_validate_of hotp_decimal p c [] (hotp_opts (resolve [WithPeriod 30, WithSkew 1]))
          = (True, None)"
    by (simp add: hotp_validate_of_def hotp_decimal_def)
  have epoch: "0 \<le> sint (Unix (Time 59))" by simp
  have small: "floor_quotient (Time 59) (resolve [WithPeriod 30, WithSkew 1]) < 2 ^ 63"
    by code_simp
  have skew: "sint (Skew (resolve [WithPeriod 30, WithSkew 1])) \<noteq> 2 ^ 63 - 1"
    by (simp add: resolve_example)
  show ?thesis
    using generate_then_validate[where hg = hotp_decimal and hv = "hotp_validate_of hotp_decimal"
        and pf = saturating and secret = "[]" and passcode = "''1''" and t = "Time 59"
        and vo = "[WithPeriod 30, WithSkew 1]", OF gen consistent epoch small skew]
      gen epoch small skew
    by simp
qed

section \<open>Provisioning\<close>

lemma sorted_query:
  "sort_key fst [(''digits'', [d :: string]), (''algorithm'', [a]), (''period'', [p]), (''issuer'', [i]), (''secret'', [s])]
   = [(''algorithm'', [a]), (''digits'', [d]), (''issuer'', [i]), (''period'', [p]), (''secret'', [s])]"
  by code_simp

lemma key_query:
  "RawQuery (key_URL opts secret) =
     ''algorithm='' @ QueryEscape (Algorithm_String (GenerateOpts.Algorithm opts))
     @ ''&digits='' @ QueryEscape (Digits_String (GenerateOpts.Digits opts))
     @ ''&issuer='' @ QueryEscape (Issuer opts)
     @ ''&period='' @ QueryEscape (FormatUint (GenerateOpts.Period opts))
     @ ''&secret='' @ QueryEscape (b32NoPadding_EncodeToString secret)"
proof -
  have k: "QueryEscape ''algorithm'' = ''algorithm''" "QueryEscape ''digits'' = ''digits''"
    "QueryEscape ''issuer'' = ''issuer''" "QueryEscape ''period'' = ''period''"
    "QueryEscape ''secret'' = ''secret''"
    by code_simp+
  show ?thesis
    by (simp add: key_URL_def Let_def Values_Set_def Values_Encode_def sorted_query k)
qed

lemma escape_id: "\<forall>c\<in>set s. \<not> shouldEscape c mode \<Longrightarrow> escape s mode = s"
  by (induction s) (simp_all add: escape_def)

lemma alphabet_safe: "\<forall>c\<in>set b32_alphabet. \<not> shouldEscape c encodeQueryComponent"
  by code_simp

lemma length_alphabet: "length b32_alphabet = 32"
  by (simp add: b32_alphabet_def)

lemma foldl_bits_bound:
  fixes a :: nat
  shows "foldl (\<lambda>n b. 2 * n + (if b then 1 else 0)) a bs < (a + 1) * 2 ^ length bs"
proof (induction bs arbitrary: a)
  case Nil
  then show ?case by simp
next
  case (Cons b bs)
  have "foldl (\<lambda>n b. 2 * n + (if b then 1 else 0)) (2 * a + (if b then 1 else 0)) bs
        < (2 * a + (if b then 1 else 0) + 1) * 2 ^ length bs" by (rule Cons.IH)
  also have "\<dots> \<le> (2 * a + 2) * 2 ^ length bs" by simp
  finally show ?case by (simp add: algebra_simps)
qed

lemma bits_to_nat_bound: "bits_to_nat bs < 2 ^ length bs"
  using foldl_bits_bound[of 0 bs] by (simp add: bits_to_nat_def)

lemma group5_length: "g \<in> set (group5 bs) \<Longrightarrow> length g = 5"
  by (induction bs rule: group5.induct) auto

lemma b32_safe:
  "\<forall>c\<in>set (b32NoPadding_EncodeToString src). \<not> shouldEscape c encodeQueryComponent"
proof
  fix c
  assume "c \<in> set (b32NoPadding_EncodeToString src)"
  then obtain g where g: "g \<in> set (group5 (concat (map bits_of_byte src)))"
    and c: "c = b32_alphabet ! bits_to_nat g"
    by (auto simp: b32NoPadding_EncodeToString_def)
  have "bits_to_nat g < 2 ^ 5" using bits_to_nat_bound[of g] group5_length[OF g] by simp
  then have "bits_to_nat g < length b32_alphabet" by (simp add: length_alphabet)
  then have "c \<in> set b32_alphabet" unfolding c by (rule nth_mem)
  then show "\<not> shouldEscape c encodeQueryComponent" using alphabet_safe by blast
qed

lemma digit_safe:
  fixes d :: int
  assumes "0 \<le> d" and "d < 10"
  shows "\<not> shouldEscape (char_of (48 + d)) encodeQueryComponent"
proof -
  have "d = 0 \<or> d = 1 \<or> d = 2 \<or> d = 3 \<or> d = 4 \<or> d = 5 \<or> d = 6 \<or> d = 7 \<or> d = 8 \<or> d = 9"
    using assms by presburger
  then have "d \<in> {0, 1, 2, 3, 4, 5, 6, 7, 8, 9}" by blast
  moreover have "\<forall>d\<in>{0, 1, 2, 3, 4, 5, 6, 7, 8, 9 :: int}. \<not> shouldEscape (char_of (48 + d)) encodeQueryComponent"
    by code_simp
  ultimately show ?thesis by blast
qed

lemma decimal_safe: "0 \<le> n \<Longrightarrow> \<forall>c\<in>set (decimal n). \<not> shouldEscape c encodeQueryComponent"
proof (induction n rule: decimal.induct)
  case (1 n)
  show ?case
  proof (cases "n < 10")
    case True
    then show ?thesis using "1.prems" by (subst decimal.simps) (simp add: digit_safe)
  next
    case False
    have "0 \<le> n mod 10" "n mod 10 < 10" by simp_all
    then have d: "\<not> shouldEscape (char_of (48 + n mod 10)) encodeQueryComponent" by (rule digit_safe)
    have "0 \<le> n div 10" using "1.prems" by simp
    from "1.IH"[OF False this] d False show ?thesis by (subst decimal.simps) simp
  qed
qed

lemma QueryEscape_b32: "QueryEscape (b32NoPadding_EncodeToString src) = b32NoPadding_EncodeToString src"
  unfolding QueryEscape_def by (rule escape_id[OF b32_safe])

lemma QueryEscape_FormatUint: "QueryEscape (FormatUint x) = FormatUint x"
  unfolding QueryEscape_def FormatUint_def by (rule escape_id[OF decimal_safe]) simp

lemma QueryEscape_Digits: "QueryEscape (Digits_String d) = Digits_String d"
proof -
  have "\<not> shouldEscape CHR ''-'' encodeQueryComponent" by code_simp
  then have "\<forall>c\<in>set (Digits_String d). \<not> shouldEscape c encodeQueryComponent"
    using decimal_safe[of d] decimal_safe[of "- d"] by (simp add: Digits_String_def)
  then show ?thesis unfolding QueryEscape_def by (rule escape_id)
qed

lemma QueryEscape_Algorithm: "QueryEscape (Algorithm_String a) = Algorithm_String a"
proof -
  have "QueryEscape ''SHA1'' = ''SHA1''" "QueryEscape ''SHA256'' = ''SHA256''"
    "QueryEscape ''SHA512'' = ''SHA512''"
    by code_simp+
  then show ?thesis by (cases a) simp_all
qed

lemma URL_String_key_URL:
  "URL_String (key_URL opts secret) =
     ''otpauth://totp'' @ escape (''/'' @ Issuer opts @ '':'' @ AccountName opts) encodePath
     @ ''?algorithm='' @ Algorithm_String (GenerateOpts.Algorithm opts)
     @ ''&digits='' @ Digits_String (GenerateOpts.Digits opts)
     @ ''&issuer='' @ QueryEscape (Issuer opts)
     @ ''&period='' @ FormatUint (GenerateOpts.Period opts)
     @ ''&secret='' @ b32NoPadding_EncodeToString secret"
proof -
  have h: "escape ''totp'' encodeHost = ''totp''" by code_simp
  have f: "Scheme (key_URL opts secret) = ''otpauth''" "Host (key_URL opts secret) = ''totp''"
    "Path (key_URL opts secret) = ''/'' @ Issuer opts @ '':'' @ AccountName opts"
    by (simp_all add: key_URL_def Let_def)
  show ?thesis
    by (simp add: URL_String_def f h key_query QueryEscape_b32 QueryEscape_FormatUint
        QueryEscape_Digits QueryEscape_Algorithm)
qed

lemma Generate_defaults_fields:
  "Issuer (Generate_defaults rr opts) = Issuer opts"
  "AccountName (Generate_defaults rr opts) = AccountName opts"
  "Secret (Generate_defaults rr opts) = Secret opts"
  "GenerateOpts.Algorithm (Generate_defaults rr opts) = GenerateOpts.Algorithm opts"
  "GenerateOpts.Period (Generate_defaults rr opts) =
     (if GenerateOpts.Period opts = 0 then 30 else GenerateOpts.Period opts)"
  "SecretSize (Generate_defaults rr opts) = (if SecretSize opts = 0 then 20 else SecretSize opts)"
  "GenerateOpts.Digits (Generate_defaults rr opts) =
     (if GenerateOpts.Digits opts = 0 then 6 else GenerateOpts.Digits opts)"
  "Rand (Generate_defaults rr opts) = (case Rand opts of None \<Rightarrow> Some rr | Some r \<Rightarrow> Some r)"
  by (simp_all add: Generate_defaults_def Let_def DigitsSix_def split: option.splits)

text \<open>
  Claim C6 (confirmed). With an empty issuer \<^verbatim>\<open>Generate\<close> returns the error of the missing
  issuer, and with an issuer and an empty account name the error of the missing account name.
  In both cases there is no key and the random source has not been read; the checks are the first
  two steps of the function, before any default.
\<close>

theorem Generate_checks_names_first:
  "(Issuer opts = [] \<longrightarrow>
      Generate rand_Reader NewKeyFromURL opts = ((None, Some ErrGenerateMissingIssuer), []))
   \<and> (Issuer opts \<noteq> [] \<and> AccountName opts = [] \<longrightarrow>
      Generate rand_Reader NewKeyFromURL opts = ((None, Some ErrGenerateMissingAccountName), []))"
  by (simp add: Generate_def)

theorem Generate_checks_names_first_witness:
  "Issuer (example_opts\<lparr>Issuer := []\<rparr>) = []
   \<and> Generate short_Reader accept_any_URL (example_opts\<lparr>Issuer := []\<rparr>)
       = ((None, Some ErrGenerateMissingIssuer), [])
   \<and> Issuer (example_opts\<lparr>AccountName := [], Secret := []\<rparr>) \<noteq> []
   \<and> AccountName (example_opts\<lparr>AccountName := [], Secret := []\<rparr>) = []
   \<and> Generate short_Reader accept_any_URL (example_opts\<lparr>AccountName := [], Secret := []\<rparr>)
       = ((None, Some ErrGenerateMissingAccountName), [])"
  using Generate_checks_names_first[of "example_opts\<lparr>Issuer := []\<rparr>" short_Reader accept_any_URL]
    Generate_checks_names_first[of "example_opts\<lparr>AccountName := [], Secret := []\<rparr>" short_Reader accept_any_URL]
  by (simp add: example_opts_def)

text \<open>
  Claim C7 (corrected). The source discards the count that \<^verbatim>\<open>Read\<close> returns and looks at the
  error only. With a random source that delivers one byte of the twenty asked for and reports no
  error, \<^verbatim>\<open>Generate\<close> does not fail: it encodes the buffer, that byte and nineteen zero bytes,
  and returns a key.
\<close>

theorem Generate_short_read_counterexample:
  "Read short_Reader (replicate 20 0) = (65 # replicate 19 0, 1, None)
   \<and> Generate short_Reader accept_any_URL (example_opts\<lparr>Secret := []\<rparr>)
     = ((Some ''otpauth://totp/Example:alice@example.com?algorithm=SHA1&digits=6&issuer=Example&period=30&secret=IEAAAAAAAAAAAAAAAAAAAAAAAAAAAAAA'',
         None), [20])"
  by code_simp

text \<open>
  Claim C7 as amended: for every call of \<^verbatim>\<open>Generate\<close> with an issuer, an account name and no
  explicit secret, if the read of the random source (the one of the options, or
  \<^verbatim>\<open>crypto/rand.Reader\<close> when there is none) returns an error, then \<^verbatim>\<open>Generate\<close> returns that
  error and no key, after this one read of \<open>SecretSize\<close> bytes (20 when the size is left at zero).
\<close>

theorem Generate_random_source_error:
  fixes rand_Reader NewKeyFromURL opts buf n err
  defines "reader \<equiv> case Rand opts of None \<Rightarrow> rand_Reader | Some r \<Rightarrow> r"
  defines "sz \<equiv> if SecretSize opts = 0 then 20 else SecretSize opts"
  assumes "Issuer opts \<noteq> []" and "AccountName opts \<noteq> []" and "Secret opts = []"
    and "Read reader (replicate (unat sz) 0) = (buf, n, Some err)"
  shows "Generate rand_Reader NewKeyFromURL opts = ((None, Some err), [unat sz])"
proof -
  have r: "(case Rand (Generate_defaults rand_Reader opts) of Some r \<Rightarrow> r | None \<Rightarrow> rand_Reader) = reader"
    by (simp add: Generate_defaults_fields reader_def split: option.splits)
  show ?thesis
    using assms(3-6)
    by (simp add: Generate_def Let_def r Generate_defaults_fields(3,6) sz_def[symmetric])
qed

theorem Generate_random_source_error_witness:
  "Issuer (example_opts\<lparr>Secret := [], Rand := Some (failing_Reader (ExternalError ''EOF''))\<rparr>) \<noteq> []
   \<and> AccountName (example_opts\<lparr>Secret := [], Rand := Some (failing_Reader (ExternalError ''EOF''))\<rparr>) \<noteq> []
   \<and> Read (failing_Reader (ExternalError ''EOF'')) (replicate 20 0)
       = (replicate 20 0, 0, Some (ExternalError ''EOF''))
   \<and> Generate short_Reader accept_any_URL
         (example_opts\<lparr>Secret := [], Rand := Some (failing_Reader (ExternalError ''EOF''))\<rparr>)
       = ((None, Some (ExternalError ''EOF'')), [20])"
proof -
  let ?o = "example_opts\<lparr>Secret := [], Rand := Some (failing_Reader (ExternalError ''EOF''))\<rparr>"
  have i: "Issuer ?o \<noteq> []" and a: "AccountName ?o \<noteq> []" and s: "Secret ?o = []"
    by (simp_all add: example_opts_def)
  have r: "Read (case Rand ?o of None \<Rightarrow> short_Reader | Some r \<Rightarrow> r)
             (replicate (unat (if SecretSize ?o = 0 then 20 else SecretSize ?o)) 0)
           = (replicate 20 0, 0, Some (ExternalError ''EOF''))"
    by (simp add: example_opts_def Read_def failing_Reader_def)
  have r': "Read (failing_Reader (ExternalError ''EOF'')) (replicate 20 0)
       = (replicate 20 0, 0, Some (ExternalError ''EOF''))"
    by (simp add: Read_def failing_Reader_def)
  show ?thesis
    using Generate_random_source_error[where NewKeyFromURL = accept_any_URL, OF i a s r] i a r'
    by (simp add: example_opts_def)
qed

text \<open>
  Claim C8 (corrected). The query is written by \<^verbatim>\<open>Values.Encode\<close>, which sorts the parameters
  by key, and path and query are percent-encoded. For the example of the spec the URI has the
  parameters in the order algorithm, digits, issuer, period, secret, not in the order of the
  claim; and an issuer \<open>Big Corp\<close> appears as \<open>Big%20Corp\<close> in the path and as \<open>Big+Corp\<close> in the
  query.
\<close>

theorem Generate_URI_counterexample:
  "Generate short_Reader accept_any_URL example_opts
     = ((Some ''otpauth://totp/Example:alice@example.com?algorithm=SHA1&digits=6&issuer=Example&period=30&secret=JBSWY3DPEHPK3PXP'',
         None), [])
   \<and> Generate short_Reader accept_any_URL example_opts
     \<noteq> ((Some ''otpauth://totp/Example:alice@example.com?secret=JBSWY3DPEHPK3PXP&issuer=Example&period=30&algorithm=SHA1&digits=6'',
         None), [])
   \<and> Generate short_Reader accept_any_URL (example_opts\<lparr>Issuer := ''Big Corp''\<rparr>)
     = ((Some ''otpauth://totp/Big%20Corp:alice@example.com?algorithm=SHA1&digits=6&issuer=Big+Corp&period=30&secret=JBSWY3DPEHPK3PXP'',
         None), [])"
  by code_simp

text \<open>
  Claim C8 as amended: for every call of \<^verbatim>\<open>Generate\<close> with an issuer and an account name that
  gets as far as the key parser, the URL it assembles has the scheme \<open>otpauth\<close>, the host \<open>totp\<close>,
  the path \<open>/Issuer:AccountName\<close> and exactly the five query parameters algorithm, digits,
  issuer, period and secret, and the key parser receives the string
  \<open>otpauth://totp/<Issuer>:<AccountName>?algorithm=<NAME>&digits=<N>&issuer=<Issuer>&period=<N>&secret=<BASE32>\<close>
  with the path and the issuer of the query percent-encoded, and with the defaults (period 30,
  6 digits) for what was left at zero. The secret is the unpadded base32 encoding of the explicit
  secret when there is one, and then the random source is not read; otherwise it is the encoding
  of the buffer of \<open>SecretSize\<close> bytes after the one read of the random source.
\<close>

theorem Generate_assembles_URI:
  fixes rand_Reader :: Reader and NewKeyFromURL :: "string \<Rightarrow> 'k option \<times> error option"
    and opts buf n
  defines "reader \<equiv> case Rand opts of None \<Rightarrow> rand_Reader | Some r \<Rightarrow> r"
  defines "sz \<equiv> if SecretSize opts = 0 then 20 else SecretSize opts"
  defines "period \<equiv> if GenerateOpts.Period opts = 0 then 30 else GenerateOpts.Period opts"
  defines "digits \<equiv> if GenerateOpts.Digits opts = 0 then 6 else GenerateOpts.Digits opts"
  defines "query \<equiv> \<lambda>secret.
     ''algorithm='' @ Algorithm_String (GenerateOpts.Algorithm opts)
     @ ''&digits='' @ Digits_String digits
     @ ''&issuer='' @ QueryEscape (Issuer opts)
     @ ''&period='' @ FormatUint period
     @ ''&secret='' @ b32NoPadding_EncodeToString secret"
  defines "uri \<equiv> \<lambda>secret.
     ''otpauth://totp'' @ escape (''/'' @ Issuer opts @ '':'' @ AccountName opts) encodePath
     @ ''?'' @ query secret"
  assumes "Issuer opts \<noteq> []" and "AccountName opts \<noteq> []"
  shows "(Secret opts \<noteq> [] \<longrightarrow>
            Generate rand_Reader NewKeyFromURL opts = (NewKeyFromURL (uri (Secret opts)), []))
       \<and> (Secret opts = [] \<and> Read reader (replicate (unat sz) 0) = (buf, n, None) \<longrightarrow>
            Generate rand_Reader NewKeyFromURL opts = (NewKeyFromURL (uri buf), [unat sz]))
       \<and> (\<forall>secret. Scheme (key_URL (Generate_defaults rand_Reader opts) secret) = ''otpauth''
            \<and> Host (key_URL (Generate_defaults rand_Reader opts) secret) = ''totp''
            \<and> Path (key_URL (Generate_defaults rand_Reader opts) secret)
                = ''/'' @ Issuer opts @ '':'' @ AccountName opts
            \<and> RawQuery (key_URL (Generate_defaults rand_Reader opts) secret) = query secret
            \<and> URL_String (key_URL (Generate_defaults rand_Reader opts) secret) = uri secret)"
proof -
  let ?d = "Generate_defaults rand_Reader opts"
  have r: "(case Rand ?d of Some r \<Rightarrow> r | None \<Rightarrow> rand_Reader) = reader"
    by (simp add: Generate_defaults_fields reader_def split: option.splits)
  have u: "URL_String (key_URL ?d secret) = uri secret" for secret
    by (simp add: URL_String_key_URL Generate_defaults_fields uri_def query_def period_def digits_def)
  have q: "RawQuery (key_URL ?d secret) = query secret" for secret
    by (simp add: key_query Generate_defaults_fields query_def period_def digits_def
        QueryEscape_b32 QueryEscape_FormatUint QueryEscape_Digits QueryEscape_Algorithm)
  have f: "Scheme (key_URL ?d secret) = ''otpauth''" "Host (key_URL ?d secret) = ''totp''"
    "Path (key_URL ?d secret) = ''/'' @ Issuer opts @ '':'' @ AccountName opts" for secret
    by (simp_all add: key_URL_def Let_def Generate_defaults_fields)
  have a: "Generate rand_Reader NewKeyFromURL opts = (NewKeyFromURL (uri (Secret opts)), [])"
    if "Secret opts \<noteq> []"
    using that assms(7,8) by (simp add: Generate_def Let_def Generate_defaults_fields(3) u)
  have b: "Generate rand_Reader NewKeyFromURL opts = (NewKeyFromURL (uri buf), [unat sz])"
    if "Secret opts = []" "Read reader (replicate (unat sz) 0) = (buf, n, None)"
    using that assms(7,8)
    by (simp add: Generate_def Let_def r Generate_defaults_fields(3,6) sz_def[symmetric] u)
  show ?thesis using a b q u f by blast
qed

theorem Generate_assembles_URI_witness:
  "Issuer example_opts \<noteq> [] \<and> AccountName example_opts \<noteq> [] \<and> Secret example_opts \<noteq> []
   \<and> Generate short_Reader accept_any_URL example_opts
       = (accept_any_URL ''otpauth://totp/Example:alice@example.com?algorithm=SHA1&digits=6&issuer=Example&period=30&secret=JBSWY3DPEHPK3PXP'', [])
   \<and> Secret (example_opts\<lparr>Secret := []\<rparr>) = []
   \<and> Read short_Reader (replicate 20 0) = (65 # replicate 19 0, 1, None)
   \<and> Generate short_Reader accept_any_URL (example_opts\<lparr>Secret := []\<rparr>)
       = (accept_any_URL ''otpauth://totp/Example:alice@example.com?algorithm=SHA1&digits=6&issuer=Example&period=30&secret=IEAAAAAAAAAAAAAAAAAAAAAAAAAAAAAA'', [20])"
proof -
  let ?o = "example_opts\<lparr>Secret := []\<rparr>"
  have i: "Issuer example_opts \<noteq> []" and a: "AccountName example_opts \<noteq> []"
    and s: "Secret example_opts \<noteq> []"
    by (simp_all add: example_opts_def)
  have i': "Issuer ?o \<noteq> []" and a': "AccountName ?o \<noteq> []" and s': "Secret ?o = []"
    by (simp_all add: example_opts_def)
  have rd: "Read short_Reader (replicate 20 0) = (65 # replicate 19 0, 1, None)" by code_simp
  have rd': "Read (case Rand ?o of None \<Rightarrow> short_Reader | Some r \<Rightarrow> r)
      (replicate (unat (if SecretSize ?o = 0 then 20 else SecretSize ?o)) 0)
      = (65 # replicate 19 0, 1, None)"
    using rd by (simp add: example_opts_def)
  have e1: "''otpauth://totp'' @ escape (''/'' @ Issuer example_opts @ '':'' @ AccountName example_opts) encodePath
     @ ''?'' @ ''algorithm='' @ Algorithm_String (GenerateOpts.Algorithm example_opts)
     @ ''&digits='' @ Digits_String (if GenerateOpts.Digits example_opts = 0 then 6 else GenerateOpts.Digits example_opts)
     @ ''&issuer='' @ QueryEscape (Issuer example_opts)
     @ ''&period='' @ FormatUint (if GenerateOpts.Period example_opts = 0 then 30 else GenerateOpts.Period example_opts)
     @ ''&secret='' @ b32NoPadding_EncodeToString (Secret example_opts)
     = ''otpauth://totp/Example:alice@example.com?algorithm=SHA1&digits=6&issuer=Example&period=30&secret=JBSWY3DPEHPK3PXP''"
    by code_simp
  have e2: "''otpauth://totp'' @ escape (''/'' @ Issuer ?o @ '':'' @ AccountName ?o) encodePath
     @ ''?'' @ ''algorithm='' @ Algorithm_String (GenerateOpts.Algorithm ?o)
     @ ''&digits='' @ Digits_String (if GenerateOpts.Digits ?o = 0 then 6 else GenerateOpts.Digits ?o)
     @ ''&issuer='' @ QueryEscape (Issuer ?o)
     @ ''&period='' @ FormatUint (if GenerateOpts.Period ?o = 0 then 30 else GenerateOpts.Period ?o)
     @ ''&secret='' @ b32NoPadding_EncodeToString (65 # replicate 19 0)
     = ''otpauth://totp/Example:alice@example.com?algorithm=SHA1&digits=6&issuer=Example&period=30&secret=IEAAAAAAAAAAAAAAAAAAAAAAAAAAAAAA''"
    by code_simp
  have g1: "Generate short_Reader accept_any_URL example_opts
       = (accept_any_URL ''otpauth://totp/Example:alice@example.com?algorithm=SHA1&digits=6&issuer=Example&period=30&secret=JBSWY3DPEHPK3PXP'', [])"
    using Generate_assembles_URI[where rand_Reader = short_Reader and NewKeyFromURL = accept_any_URL,
        OF i a, THEN conjunct1] s
    by (simp only: e1 simp_thms)
  have g2: "Generate short_Reader accept_any_URL ?o
       = (accept_any_URL ''otpauth://totp/Example:alice@example.com?algorithm=SHA1&digits=6&issuer=Example&period=30&secret=IEAAAAAAAAAAAAAAAAAAAAAAAAAAAAAA'', [20])"
    using Generate_assembles_URI[where rand_Reader = short_Reader and NewKeyFromURL = accept_any_URL
        and buf = "65 # replicate 19 0" and n = 1, OF i' a', THEN conjunct2, THEN conjunct1,
        unfolded e2] s' rd'
    by (simp add: example_opts_def)
  show ?thesis using i a s s' rd g1 g2 by simp
qed

end
